theory Spec2Isabelle
  imports Main
begin

section \<open>JavaScript strings and numbers\<close>

text \<open>
  Strings are modelled as \<open>string\<close> (lists of 8-bit characters), which covers the ASCII
  paths and headers the server handles. A JavaScript number that the server uses as a byte
  position is an \<open>int option\<close>: \<open>None\<close> is \<open>NaN\<close>, \<open>Some i\<close> the integer \<open>i\<close>.
  Integers below \<open>2 ^ 53\<close> are exact in JavaScript; larger ones are refused by the
  stream constructor below, so no rounded value is ever printed. (A digit string long
  enough to read as \<open>Infinity\<close>, more than 300 digits, is outside this model.)
\<close>

text \<open>\<open>String.prototype.startsWith\<close>.\<close>

definition startsWith :: "string \<Rightarrow> string \<Rightarrow> bool" where
  "startsWith s p = (take (length p) s = p)"

text \<open>\<open>String.prototype.split\<close> with a one-character separator: the empty string splits
  into one empty part, and a trailing separator gives a trailing empty part.\<close>

fun split_on :: "char \<Rightarrow> string \<Rightarrow> string list" where
  "split_on d [] = [[]]"
| "split_on d (c # cs) =
     (if c = d then [] # split_on d cs
      else (c # hd (split_on d cs)) # tl (split_on d cs))"

text \<open>\<open>Array.prototype.join\<close>.\<close>

fun join_with :: "string \<Rightarrow> string list \<Rightarrow> string" where
  "join_with sep [] = []"
| "join_with sep [s] = s"
| "join_with sep (s # t # ts) = s @ sep @ join_with sep (t # ts)"

text \<open>\<open>s.replace(/bytes=/, '')\<close>: the first occurrence of the literal \<open>pat\<close>, anywhere
  in the string, is removed.\<close>

fun remove_first :: "string \<Rightarrow> string \<Rightarrow> string" where
  "remove_first pat [] = []"
| "remove_first pat (c # cs) =
     (if startsWith (c # cs) pat then drop (length pat) (c # cs)
      else c # remove_first pat cs)"

text \<open>\<open>String.prototype.includes\<close>.\<close>

fun str_includes :: "string \<Rightarrow> string \<Rightarrow> bool" where
  "str_includes [] q = (q = [])"
| "str_includes (c # cs) q = (startsWith (c # cs) q \<or> str_includes cs q)"

text \<open>\<open>String.prototype.toLowerCase\<close> on ASCII letters.\<close>

definition lower_char :: "char \<Rightarrow> char" where
  "lower_char c =
     (case map_of (zip ''ABCDEFGHIJKLMNOPQRSTUVWXYZ'' ''abcdefghijklmnopqrstuvwxyz'') c of
        Some l \<Rightarrow> l
      | None \<Rightarrow> c)"

definition toLowerCase :: "string \<Rightarrow> string" where
  "toLowerCase s = map lower_char s"

text \<open>\<open>parseInt(s, 10)\<close>: leading white space is skipped, one sign is read, then the
  longest run of decimal digits; no digit at all gives \<open>NaN\<close>.\<close>

definition isWhiteSpace :: "char \<Rightarrow> bool" where
  "isWhiteSpace c = ((of_char c :: nat) \<in> {9, 10, 11, 12, 13, 32})"

definition isDigit :: "char \<Rightarrow> bool" where
  "isDigit c = (48 \<le> (of_char c :: nat) \<and> (of_char c :: nat) \<le> 57)"

definition digitVal :: "char \<Rightarrow> nat" where
  "digitVal c = of_char c - 48"

definition digits_value :: "string \<Rightarrow> nat" where
  "digits_value ds = foldl (\<lambda>a c. 10 * a + digitVal c) 0 ds"

definition parseInt :: "string \<Rightarrow> int option" where
  "parseInt s =
     (let t = dropWhile isWhiteSpace s;
          neg = (t \<noteq> [] \<and> hd t = CHR ''-'');
          u = (if t \<noteq> [] \<and> (hd t = CHR ''-'' \<or> hd t = CHR ''+'') then tl t else t);
          ds = takeWhile isDigit u
      in if ds = [] then None
         else Some (if neg then - int (digits_value ds) else int (digits_value ds)))"

text \<open>Number to string, as a template literal prints a non-negative integer.\<close>

definition digitChar :: "nat \<Rightarrow> char" where
  "digitChar d = ''0123456789'' ! d"

fun string_of_nat :: "nat \<Rightarrow> string" where
  "string_of_nat n =
     (if n < 10 then [digitChar n]
      else string_of_nat (n div 10) @ [digitChar (n mod 10)])"

declare string_of_nat.simps [simp del]

definition string_of_int :: "int \<Rightarrow> string" where
  "string_of_int i = (if i < 0 then CHR ''-'' # string_of_nat (nat (- i)) else string_of_nat (nat i))"

section \<open>The \<open>path\<close> module of the runtime (POSIX)\<close>

text \<open>
  The server calls \<open>path.normalize\<close>, \<open>path.resolve\<close>, \<open>path.join\<close>,
  \<open>path.relative\<close>, \<open>path.dirname\<close> and \<open>path.extname\<close> of Node.js. They are
  modelled here for POSIX, where \<open>path.sep\<close> is the slash and the backslash is an
  ordinary character. Normalisation works on the segments between slashes: empty and
  \<open>.\<close> segments vanish, a \<open>..\<close> segment removes the segment before it unless that
  one is \<open>..\<close> itself or missing, in which case it is kept only for a relative path.
\<close>

definition path_sep :: char where
  "path_sep = CHR ''/''"

definition normalizeSegment :: "bool \<Rightarrow> string list \<Rightarrow> string \<Rightarrow> string list" where
  "normalizeSegment allowAboveRoot res seg =
     (if seg = [] \<or> seg = ''.'' then res
      else if seg = ''..'' then
        (if res \<noteq> [] \<and> last res \<noteq> ''..'' then butlast res
         else if allowAboveRoot then res @ [''..''] else res)
      else res @ [seg])"

definition normalizeSegments :: "bool \<Rightarrow> string list \<Rightarrow> string list" where
  "normalizeSegments allowAboveRoot segs = foldl (normalizeSegment allowAboveRoot) [] segs"

definition normalizeString :: "string \<Rightarrow> bool \<Rightarrow> string" where
  "normalizeString path allowAboveRoot =
     join_with ''/'' (normalizeSegments allowAboveRoot (split_on path_sep path))"

definition posix_normalize :: "string \<Rightarrow> string" where
  "posix_normalize path =
     (if path = [] then ''.''
      else
        let isAbsolute = (hd path = path_sep);
            trailingSeparator = (last path = path_sep);
            p = normalizeString path (\<not> isAbsolute)
        in if p = [] then (if isAbsolute then ''/'' else if trailingSeparator then ''./'' else ''.'')
           else
             let p' = (if trailingSeparator then p @ ''/'' else p)
             in if isAbsolute then ''/'' @ p' else p')"

text \<open>\<open>path.resolve\<close> walks its arguments from the right, then the working directory,
  until an absolute one is found. The list given to \<open>resolve_paths\<close> is in that order.\<close>

fun resolve_paths :: "string list \<Rightarrow> string \<Rightarrow> string \<times> bool" where
  "resolve_paths [] resolvedPath = (resolvedPath, False)"
| "resolve_paths (p # ps) resolvedPath =
     (if p = [] then resolve_paths ps resolvedPath
      else if hd p = path_sep then (p @ ''/'' @ resolvedPath, True)
      else resolve_paths ps (p @ ''/'' @ resolvedPath))"

definition posix_resolve :: "string \<Rightarrow> string list \<Rightarrow> string" where
  "posix_resolve cwd args =
     (let (resolvedPath, resolvedAbsolute) = resolve_paths (rev args @ [cwd]) [];
          n = normalizeString resolvedPath (\<not> resolvedAbsolute)
      in if resolvedAbsolute then ''/'' @ n
         else if n \<noteq> [] then n else ''.'')"

definition posix_join :: "string list \<Rightarrow> string" where
  "posix_join args =
     (let joined = join_with ''/'' (filter (\<lambda>a. a \<noteq> []) args)
      in if joined = [] then ''.'' else posix_normalize joined)"

text \<open>\<open>path.relative\<close>: both paths are resolved, their common leading segments dropped,
  one \<open>..\<close> is written for each segment left of \<open>from\<close>, then what is left of \<open>to\<close>.\<close>

fun drop_common :: "string list \<Rightarrow> string list \<Rightarrow> string list \<times> string list" where
  "drop_common (a # as) (b # bs) = (if a = b then drop_common as bs else (a # as, b # bs))"
| "drop_common as bs = (as, bs)"

definition absolute_segments :: "string \<Rightarrow> string list" where
  "absolute_segments p = filter (\<lambda>s. s \<noteq> []) (split_on path_sep p)"

definition posix_relative :: "string \<Rightarrow> string \<Rightarrow> string \<Rightarrow> string" where
  "posix_relative cwd from to =
     (if from = to then []
      else
        let from' = posix_resolve cwd [from];
            to' = posix_resolve cwd [to]
        in if from' = to' then []
           else
             let (fs, ts) = drop_common (absolute_segments from') (absolute_segments to')
             in join_with ''/'' (replicate (length fs) ''..'' @ ts))"

text \<open>An ordinary path segment: not empty, not \<open>.\<close> or \<open>..\<close>, and without a slash.
  The names that \<open>readdir\<close> returns are of this kind.\<close>

definition plain :: "string \<Rightarrow> bool" where
  "plain s = (s \<noteq> [] \<and> s \<noteq> ''.'' \<and> s \<noteq> ''..'' \<and> path_sep \<notin> set s)"

text \<open>\<open>path.dirname\<close>: the scan runs from the last character down to index 1 and stops
  at the first slash that follows a character which is not a slash.\<close>

fun dirname_scan :: "string \<Rightarrow> nat \<Rightarrow> bool \<Rightarrow> nat option" where
  "dirname_scan path 0 matchedSlash = None"
| "dirname_scan path (Suc i) matchedSlash =
     (if path ! (Suc i) = path_sep then
        (if \<not> matchedSlash then Some (Suc i) else dirname_scan path i matchedSlash)
      else dirname_scan path i False)"

definition posix_dirname :: "string \<Rightarrow> string" where
  "posix_dirname path =
     (if path = [] then ''.''
      else
        let hasRoot = (hd path = path_sep)
        in case dirname_scan path (length path - 1) True of
             None \<Rightarrow> (if hasRoot then ''/'' else ''.'')
           | Some e \<Rightarrow> (if hasRoot \<and> e = 1 then ''//'' else take e path))"

text \<open>\<open>path.extname\<close>: the extension of the last path component, from its last dot;
  empty when there is no dot, when the last dot opens the component, and for \<open>..\<close>.\<close>

definition posix_extname :: "string \<Rightarrow> string" where
  "posix_extname path =
     (let trimmed = rev (dropWhile (\<lambda>c. c = path_sep) (rev path));
          base = rev (takeWhile (\<lambda>c. c \<noteq> path_sep) (rev trimmed));
          ext = rev (takeWhile (\<lambda>c. c \<noteq> CHR ''.'') (rev base))
      in if CHR ''.'' \<notin> set base then []
         else if Suc (length ext) = length base then []
         else if base = ''..'' then []
         else CHR ''.'' # ext)"

section \<open>Configuration, errors and the file system\<close>

text \<open>\<open>config.json\<close>: the fields the core reads. The recursion depth is a count, read
  as a natural number; \<open>allowedImageExtensions\<close> may be missing.\<close>

record config =
  videoDirectory :: string
  allowedExtensions :: "string list"
  allowedImageExtensions :: "string list option"
  maxRecursionDepth :: nat

text \<open>What a handler can report: the errors thrown inside it (and caught by its
  \<open>catch\<close>) and the messages it sends itself.\<close>

datatype error =
    TraversalDetected
  | FsError
  | FailedToReadDirectory
  | StreamOutOfRange
  | Unauthorized
  | PathParameterRequired
  | PathNotDirectory
  | InvalidVideoFile

text \<open>The file system as the core sees it: \<open>fs.promises.readdir\<close> with file types,
  \<open>fs.promises.stat\<close> (both \<open>None\<close> when the call is rejected) and the bytes of
  a file. Nothing bounds the depth of the tree.\<close>

datatype dirent_kind = DirectoryEntry | FileEntry | OtherEntry

record dirent =
  d_name :: string
  d_kind :: dirent_kind

record stats =
  st_isFile :: bool
  st_isDirectory :: bool
  st_size :: nat
  st_mtime :: nat

record filesystem =
  fs_readdir :: "string \<Rightarrow> dirent list option"
  fs_stat :: "string \<Rightarrow> stats option"
  fs_content :: "string \<Rightarrow> string"

section \<open>sanitizePath\<close>

text \<open>\<open>s.replace(/^(\.\.(\/|\\|$))+/, '')\<close>: leading runs of two dots followed by a
  slash, a backslash or the end of the string are removed.\<close>

fun strip_parent_prefix :: "string \<Rightarrow> string" where
  "strip_parent_prefix (a # b # c # rest) =
     (if a = CHR ''.'' \<and> b = CHR ''.'' \<and> (c = CHR ''/'' \<or> c = CHR 0x5C)
      then strip_parent_prefix rest
      else a # b # c # rest)"
| "strip_parent_prefix s = (if s = ''..'' then [] else s)"

text \<open>\<open>const baseDir = path.resolve(config.videoDirectory)\<close>: the root, resolved against
  the working directory \<open>cwd\<close> of the process.\<close>

definition baseDir :: "config \<Rightarrow> string \<Rightarrow> string" where
  "baseDir cfg cwd = posix_resolve cwd [videoDirectory cfg]"

text \<open>\<open>k\<close> parent segments in front of a path: \<open>../../\<close> for \<open>k = 2\<close>.\<close>

definition parent_prefix :: "nat \<Rightarrow> string" where
  "parent_prefix k = concat (replicate k ''../'')"

definition sanitizePath :: "config \<Rightarrow> string \<Rightarrow> string \<Rightarrow> error + string" where
  "sanitizePath cfg cwd userPath =
     (if userPath = [] then Inr (baseDir cfg cwd)
      else
        let normalized = strip_parent_prefix (posix_normalize userPath);
            fullPath = posix_resolve cwd [baseDir cfg cwd, normalized]
        in if \<not> startsWith fullPath (baseDir cfg cwd @ [path_sep]) \<and> fullPath \<noteq> baseDir cfg cwd
           then Inl TraversalDetected
           else Inr fullPath)"

text \<open>The earlier variant of the server (session tokens, no database) has a shorter
  \<open>sanitizePath\<close>: the same stripping, then \<open>path.join\<close> onto the configured
  directory as it is written, and a plain \<open>startsWith\<close> test against it.\<close>

definition sanitizePath_variant :: "config \<Rightarrow> string \<Rightarrow> error + string" where
  "sanitizePath_variant cfg userPath =
     (let normalized = strip_parent_prefix (posix_normalize userPath);
          fullPath = posix_join [videoDirectory cfg, normalized]
      in if \<not> startsWith fullPath (videoDirectory cfg) then Inl TraversalDetected
         else Inr fullPath)"

section \<open>Classification of files\<close>

definition isVideoFile :: "config \<Rightarrow> string \<Rightarrow> bool" where
  "isVideoFile cfg filename = (toLowerCase (posix_extname filename) \<in> set (allowedExtensions cfg))"

definition isImageFile :: "config \<Rightarrow> string \<Rightarrow> bool" where
  "isImageFile cfg filename =
     (let imageExts = (case allowedImageExtensions cfg of
                         Some exts \<Rightarrow> exts
                       | None \<Rightarrow> [''.jpg'', ''.jpeg'', ''.png'', ''.gif'', ''.webp'', ''.bmp'', ''.svg''])
      in toLowerCase (posix_extname filename) \<in> set imageExts)"

definition isMediaFile :: "string \<Rightarrow> bool" where
  "isMediaFile filename = True"

definition getFileType :: "config \<Rightarrow> string \<Rightarrow> string" where
  "getFileType cfg filename =
     (let ext = toLowerCase (posix_extname filename)
      in if isVideoFile cfg filename then ''video''
         else if isImageFile cfg filename then ''image''
         else if ext \<in> set [''.pdf'', ''.doc'', ''.docx'', ''.txt'', ''.rtf'', ''.odt''] then ''document''
         else if ext \<in> set [''.mp3'', ''.wav'', ''.flac'', ''.aac'', ''.ogg'', ''.m4a'', ''.wma''] then ''audio''
         else if ext \<in> set [''.zip'', ''.rar'', ''.7z'', ''.tar'', ''.gz'', ''.bz2''] then ''archive''
         else if ext \<in> set [''.js'', ''.py'', ''.java'', ''.cpp'', ''.c'', ''.html'', ''.css'', ''.json'', ''.xml'']
           then ''code''
         else ''file'')"

definition mimeTypes :: "(string \<times> string) list" where
  "mimeTypes =
     [(''.mp4'', ''video/mp4''), (''.m4v'', ''video/mp4''), (''.webm'', ''video/webm''),
      (''.avi'', ''video/x-msvideo''), (''.mkv'', ''video/x-matroska''),
      (''.mov'', ''video/quicktime''), (''.wmv'', ''video/x-ms-wmv''),
      (''.flv'', ''video/x-flv''), (''.mpeg'', ''video/mpeg''), (''.mpg'', ''video/mpeg'')]"

definition getMimeType :: "string \<Rightarrow> string" where
  "getMimeType filename =
     (case map_of mimeTypes (toLowerCase (posix_extname filename)) of
        Some m \<Rightarrow> m
      | None \<Rightarrow> ''video/mp4'')"

section \<open>Single-level listing: readDirectoryRecursive and /api/browse\<close>

record folder_entry =
  fo_name :: string
  fo_path :: string

record file_entry =
  fi_name :: string
  fi_path :: string
  fi_type :: string
  fi_size :: nat
  fi_modified :: nat

text \<open>The two objects \<open>readDirectoryRecursive\<close> can return: the \<open>{error: ...}\<close>
  object of the depth guard, or \<open>{folders, files}\<close>.\<close>

datatype listing =
    DepthExceeded
  | Listing "folder_entry list" "file_entry list"

text \<open>The \<open>for\<close> loop over the directory entries. A rejected \<open>stat\<close> leaves the loop
  with the error.\<close>

fun list_items ::
  "config \<Rightarrow> string \<Rightarrow> filesystem \<Rightarrow> string \<Rightarrow> dirent list \<Rightarrow>
   folder_entry list \<Rightarrow> file_entry list \<Rightarrow> error + listing" where
  "list_items cfg cwd fs dirPath [] folders files = Inr (Listing folders files)"
| "list_items cfg cwd fs dirPath (item # items) folders files =
     (let itemPath = posix_join [dirPath, d_name item];
          relativePath = posix_relative cwd (videoDirectory cfg) itemPath
      in if startsWith (d_name item) ''.'' then list_items cfg cwd fs dirPath items folders files
         else if d_kind item = DirectoryEntry then
           list_items cfg cwd fs dirPath items
             (folders @ [\<lparr>fo_name = d_name item, fo_path = relativePath\<rparr>]) files
         else if d_kind item = FileEntry \<and> isMediaFile (d_name item) then
           (case fs_stat fs itemPath of
              None \<Rightarrow> Inl FsError
            | Some st \<Rightarrow>
                list_items cfg cwd fs dirPath items folders
                  (files @ [\<lparr>fi_name = d_name item, fi_path = relativePath,
                             fi_type = getFileType cfg (d_name item),
                             fi_size = st_size st, fi_modified = st_mtime st\<rparr>]))
         else list_items cfg cwd fs dirPath items folders files)"

definition readDirectoryRecursive ::
  "config \<Rightarrow> string \<Rightarrow> filesystem \<Rightarrow> string \<Rightarrow> nat \<Rightarrow> error + listing" where
  "readDirectoryRecursive cfg cwd fs dirPath currentDepth =
     (if currentDepth > maxRecursionDepth cfg then Inr DepthExceeded
      else
        (case fs_readdir fs dirPath of
           None \<Rightarrow> Inl FailedToReadDirectory
         | Some items \<Rightarrow>
             (case list_items cfg cwd fs dirPath items [] [] of
                Inl e \<Rightarrow> Inl FailedToReadDirectory
              | Inr result \<Rightarrow> Inr result)))"

text \<open>Requests and responses. A response body is the JSON error object, a listing, or
  the bytes piped from a read stream.\<close>

record request =
  authenticated :: bool
  query_path :: "string option"
  range_header :: "string option"

datatype body =
    ErrorBody error
  | ListingBody listing
  | BytesBody string

record response =
  status :: nat
  headers :: "(string \<times> string) list"
  body :: body

definition json_error :: "nat \<Rightarrow> error \<Rightarrow> response" where
  "json_error code e = \<lparr>status = code, headers = [], body = ErrorBody e\<rparr>"

definition browse_handler :: "config \<Rightarrow> string \<Rightarrow> filesystem \<Rightarrow> request \<Rightarrow> response" where
  "browse_handler cfg cwd fs req =
     (if \<not> authenticated req then json_error 401 Unauthorized
      else
        let requestedPath = (case query_path req of None \<Rightarrow> [] | Some p \<Rightarrow> p)
        in case sanitizePath cfg cwd requestedPath of
             Inl e \<Rightarrow> json_error 500 e
           | Inr fullPath \<Rightarrow>
               (case fs_stat fs fullPath of
                  None \<Rightarrow> json_error 500 FsError
                | Some st \<Rightarrow>
                    if \<not> st_isDirectory st then json_error 400 PathNotDirectory
                    else
                      (case readDirectoryRecursive cfg cwd fs fullPath 0 of
                         Inl e \<Rightarrow> json_error 500 e
                       | Inr contents \<Rightarrow>
                           \<lparr>status = 200, headers = [], body = ListingBody contents\<rparr>)))"

section \<open>Recursive search: searchVideosRecursive\<close>

record search_result =
  sr_name :: string
  sr_path :: string
  sr_folder :: string
  sr_type :: string
  sr_size :: nat
  sr_modified :: nat

text \<open>The search mutates the captured array \<open>results\<close>; the state passed through the
  model holds it, together with the list of file-system calls made so far (each
  \<open>readdir\<close> with the depth of the \<open>searchDir\<close> call that made it).\<close>

datatype fs_call =
    ReaddirCall string nat
  | StatCall string

record search_state =
  results :: "search_result list"
  calls :: "fs_call list"

text \<open>\<open>path.dirname(relativePath) || 'Home'\<close>.\<close>

definition folder_of :: "string \<Rightarrow> string" where
  "folder_of relativePath =
     (let d = posix_dirname relativePath in if d = [] then ''Home'' else d)"

text \<open>\<open>entry_of fs dir item\<close>: \<open>item\<close> is one of the entries that \<open>readdir\<close> returns for
  \<open>dir\<close>. \<open>descend start names\<close> is the path reached from \<open>start\<close> by joining the
  names one after the other, as the search does when it enters sub-directories.\<close>

definition entry_of :: "filesystem \<Rightarrow> string \<Rightarrow> dirent \<Rightarrow> bool" where
  "entry_of fs dir item = (case fs_readdir fs dir of None \<Rightarrow> False | Some items \<Rightarrow> item \<in> set items)"

definition descend :: "string \<Rightarrow> string list \<Rightarrow> string" where
  "descend start names = foldl (\<lambda>p n. posix_join [p, n]) start names"

text \<open>Names none of which carries the hidden-file marker, a leading dot.\<close>

definition visible :: "string list \<Rightarrow> bool" where
  "visible names = list_all (\<lambda>n. \<not> startsWith n ''.'') names"

text \<open>\<open>subdir_chain fs p names\<close>: the names are, one after the other, the
  sub-directories that the search enters from \<open>p\<close>: each one is the name of a directory
  entry, without a leading dot, that \<open>readdir\<close> returns for the directory reached so
  far.\<close>

fun subdir_chain :: "filesystem \<Rightarrow> string \<Rightarrow> string list \<Rightarrow> bool" where
  "subdir_chain fs p [] = True"
| "subdir_chain fs p (n # ns) =
     (entry_of fs p \<lparr>d_name = n, d_kind = DirectoryEntry\<rparr> \<and> \<not> startsWith n ''.''
      \<and> subdir_chain fs (posix_join [p, n]) ns)"

text \<open>\<open>searchDir\<close> is the inner function of the source; \<open>searchItems\<close> is its
  \<open>for\<close> loop. A rejected \<open>readdir\<close> or \<open>stat\<close> is caught by the \<open>catch\<close> of the
  \<open>searchDir\<close> call it happens in: that call returns, and what is already in
  \<open>results\<close> stays.\<close>

function
  searchDir ::
    "config \<Rightarrow> string \<Rightarrow> filesystem \<Rightarrow> string \<Rightarrow> nat \<Rightarrow> string \<Rightarrow> nat \<Rightarrow>
     search_state \<Rightarrow> search_state"
  and searchItems ::
    "config \<Rightarrow> string \<Rightarrow> filesystem \<Rightarrow> string \<Rightarrow> nat \<Rightarrow> string \<Rightarrow> nat \<Rightarrow>
     dirent list \<Rightarrow> search_state \<Rightarrow> search_state"
where
  "searchDir cfg cwd fs lowerQuery maxResults dirPath depth st =
     (if depth > maxRecursionDepth cfg \<or> length (results st) \<ge> maxResults then st
      else
        (case fs_readdir fs dirPath of
           None \<Rightarrow> st\<lparr>calls := calls st @ [ReaddirCall dirPath depth]\<rparr>
         | Some items \<Rightarrow>
             searchItems cfg cwd fs lowerQuery maxResults dirPath depth items
               (st\<lparr>calls := calls st @ [ReaddirCall dirPath depth]\<rparr>)))"
| "searchItems cfg cwd fs lowerQuery maxResults dirPath depth [] st = st"
| "searchItems cfg cwd fs lowerQuery maxResults dirPath depth (item # items) st =
     (if startsWith (d_name item) ''.'' then
        searchItems cfg cwd fs lowerQuery maxResults dirPath depth items st
      else if d_kind item = DirectoryEntry then
        searchItems cfg cwd fs lowerQuery maxResults dirPath depth items
          (searchDir cfg cwd fs lowerQuery maxResults
             (posix_join [dirPath, d_name item]) (depth + 1) st)
      else if d_kind item = FileEntry \<and> isMediaFile (d_name item) then
        (if str_includes (toLowerCase (d_name item)) lowerQuery then
           (case fs_stat fs (posix_join [dirPath, d_name item]) of
              None \<Rightarrow> st\<lparr>calls := calls st @ [StatCall (posix_join [dirPath, d_name item])]\<rparr>
            | Some s \<Rightarrow>
                searchItems cfg cwd fs lowerQuery maxResults dirPath depth items
                  (st\<lparr>results := results st @
                        [\<lparr>sr_name = d_name item,
                          sr_path = posix_relative cwd (videoDirectory cfg)
                                      (posix_join [dirPath, d_name item]),
                          sr_folder = folder_of (posix_relative cwd (videoDirectory cfg)
                                                  (posix_join [dirPath, d_name item])),
                          sr_type = getFileType cfg (d_name item),
                          sr_size = st_size s, sr_modified = st_mtime s\<rparr>],
                      calls := calls st @ [StatCall (posix_join [dirPath, d_name item])]\<rparr>))
         else searchItems cfg cwd fs lowerQuery maxResults dirPath depth items st)
      else searchItems cfg cwd fs lowerQuery maxResults dirPath depth items st)"
  by pat_completeness auto

termination
  by (relation "measures
        [\<lambda>x. case x of
               Inl (cfg, cwd, fs, lq, mr, dp, depth, st) \<Rightarrow> maxRecursionDepth cfg + 1 - depth
             | Inr (cfg, cwd, fs, lq, mr, dp, depth, items, st) \<Rightarrow> maxRecursionDepth cfg - depth,
         \<lambda>x. case x of Inl a \<Rightarrow> 0 | Inr b \<Rightarrow> 1,
         \<lambda>x. case x of
               Inl a \<Rightarrow> 0
             | Inr (cfg, cwd, fs, lq, mr, dp, depth, items, st) \<Rightarrow> length items]")
     auto

declare searchDir.simps [simp del]

definition search_run ::
  "config \<Rightarrow> string \<Rightarrow> filesystem \<Rightarrow> string \<Rightarrow> string \<Rightarrow> nat \<Rightarrow> search_state" where
  "search_run cfg cwd fs startPath query maxResults =
     searchDir cfg cwd fs (toLowerCase query) maxResults startPath 0 \<lparr>results = [], calls = []\<rparr>"

definition searchVideosRecursive ::
  "config \<Rightarrow> string \<Rightarrow> filesystem \<Rightarrow> string \<Rightarrow> string \<Rightarrow> nat \<Rightarrow> search_result list" where
  "searchVideosRecursive cfg cwd fs startPath query maxResults =
     results (search_run cfg cwd fs startPath query maxResults)"

text \<open>The entries for which the loop of \<open>searchDir\<close> calls \<open>stat\<close> and, when
  that succeeds, pushes a result: the conditions of the loop body, taken together.\<close>

definition matches :: "string \<Rightarrow> dirent \<Rightarrow> bool" where
  "matches lowerQuery item =
     (\<not> startsWith (d_name item) ''.'' \<and> d_kind item = FileEntry
      \<and> isMediaFile (d_name item)
      \<and> str_includes (toLowerCase (d_name item)) lowerQuery)"

section \<open>Streaming: /api/video\<close>

text \<open>\<open>fs.createReadStream(path, {start, end})\<close> of Node.js 20 (the runtime the
  repository's Dockerfile installs): \<open>start\<close> and \<open>end\<close> must be integers from 0 to
  \<open>Number.MAX_SAFE_INTEGER\<close> with \<open>start \<le> end\<close>, otherwise the constructor throws.
  The stream then delivers the bytes from \<open>start\<close> to \<open>end\<close>, both included, as far
  as the file has them.\<close>

definition MAX_SAFE_INTEGER :: int where
  "MAX_SAFE_INTEGER = 2 ^ 53 - 1"

definition validateInteger :: "int option \<Rightarrow> bool" where
  "validateInteger v = (case v of None \<Rightarrow> False | Some i \<Rightarrow> 0 \<le> i \<and> i \<le> MAX_SAFE_INTEGER)"

definition createReadStream :: "string \<Rightarrow> int option \<Rightarrow> int option \<Rightarrow> error + string" where
  "createReadStream content start end =
     (case (start, end) of
        (Some s, Some e) \<Rightarrow>
          if validateInteger start \<and> validateInteger end \<and> s \<le> e
          then Inr (take (nat (e - s + 1)) (drop (nat s) content))
          else Inl StreamOutOfRange
      | _ \<Rightarrow> Inl StreamOutOfRange)"

text \<open>Printing a number in a header. \<open>NaN\<close> is never printed: the stream constructor
  has thrown before.\<close>

definition show_number :: "int option \<Rightarrow> string" where
  "show_number v = (case v of None \<Rightarrow> ''NaN'' | Some i \<Rightarrow> string_of_int i)"

definition video_handler :: "config \<Rightarrow> string \<Rightarrow> filesystem \<Rightarrow> request \<Rightarrow> response" where
  "video_handler cfg cwd fs req =
     (if \<not> authenticated req then json_error 401 Unauthorized
      else
        (case query_path req of
           None \<Rightarrow> json_error 400 PathParameterRequired
         | Some requestedPath \<Rightarrow>
             if requestedPath = [] then json_error 400 PathParameterRequired
             else
               (case sanitizePath cfg cwd requestedPath of
                  Inl e \<Rightarrow> json_error 500 e
                | Inr fullPath \<Rightarrow>
                    (case fs_stat fs fullPath of
                       None \<Rightarrow> json_error 500 FsError
                     | Some st \<Rightarrow>
                         if \<not> st_isFile st \<or> \<not> isVideoFile cfg fullPath
                         then json_error 400 InvalidVideoFile
                         else
                           let fileSize = st_size st;
                               range = (case range_header req of None \<Rightarrow> [] | Some r \<Rightarrow> r)
                           in if range \<noteq> [] then
                                let parts = split_on CHR ''-'' (remove_first ''bytes='' range);
                                    start = parseInt (hd parts);
                                    end = (if length parts > 1 \<and> parts ! 1 \<noteq> []
                                           then parseInt (parts ! 1)
                                           else Some (int fileSize - 1));
                                    chunkSize = (case (start, end) of
                                                   (Some s, Some e) \<Rightarrow> Some (e - s + 1)
                                                 | _ \<Rightarrow> None)
                                in case createReadStream (fs_content fs fullPath) start end of
                                     Inl e \<Rightarrow> json_error 500 e
                                   | Inr fileStream \<Rightarrow>
                                       \<lparr>status = 206,
                                        headers =
                                          [(''Content-Range'',
                                            ''bytes '' @ show_number start @ ''-'' @ show_number end
                                              @ ''/'' @ string_of_nat fileSize),
                                           (''Accept-Ranges'', ''bytes''),
                                           (''Content-Length'', show_number chunkSize),
                                           (''Content-Type'', getMimeType fullPath)],
                                        body = BytesBody fileStream\<rparr>
                              else
                                \<lparr>status = 200,
                                 headers =
                                   [(''Content-Length'', string_of_nat fileSize),
                                    (''Content-Type'', getMimeType fullPath)],
                                 body = BytesBody (fs_content fs fullPath)\<rparr>))))"

section \<open>A small library, for the scenarios\<close>

text \<open>Root \<open>/lib\<close> with \<open>/lib/movies/a.mp4\<close> (500000 bytes) and \<open>/lib/.hidden/b.mp4\<close>.\<close>

definition lib_config :: config where
  "lib_config =
     \<lparr>videoDirectory = ''/lib'',
      allowedExtensions = [''.mp4'', ''.webm'', ''.mkv'', ''.avi'', ''.mov''],
      allowedImageExtensions = None,
      maxRecursionDepth = 10\<rparr>"

definition dir_stats :: stats where
  "dir_stats = \<lparr>st_isFile = False, st_isDirectory = True, st_size = 4096, st_mtime = 0\<rparr>"

definition file_stats :: "nat \<Rightarrow> stats" where
  "file_stats n = \<lparr>st_isFile = True, st_isDirectory = False, st_size = n, st_mtime = 0\<rparr>"

definition lib_fs :: filesystem where
  "lib_fs =
     \<lparr>fs_readdir = map_of
        [(''/lib'', [\<lparr>d_name = ''.hidden'', d_kind = DirectoryEntry\<rparr>,
                     \<lparr>d_name = ''movies'', d_kind = DirectoryEntry\<rparr>]),
         (''/lib/movies'', [\<lparr>d_name = ''a.mp4'', d_kind = FileEntry\<rparr>]),
         (''/lib/.hidden'', [\<lparr>d_name = ''b.mp4'', d_kind = FileEntry\<rparr>])],
      fs_stat = map_of
        [(''/lib'', dir_stats), (''/lib/movies'', dir_stats), (''/lib/.hidden'', dir_stats),
         (''/lib/movies/a.mp4'', file_stats 500000), (''/lib/.hidden/b.mp4'', file_stats 1000)],
      fs_content = (\<lambda>p. if p = ''/lib/movies/a.mp4'' then replicate 500000 (CHR ''a'')
                         else if p = ''/lib/.hidden/b.mp4'' then replicate 1000 (CHR ''b'')
                         else [])\<rparr>"

text \<open>A directory \<open>/lib\<close> holding two files that both match the query \<open>clip\<close>.\<close>

definition two_clips_fs :: filesystem where
  "two_clips_fs =
     \<lparr>fs_readdir = map_of
        [(''/lib'', [\<lparr>d_name = ''clip1.mp4'', d_kind = FileEntry\<rparr>,
                     \<lparr>d_name = ''clip2.mp4'', d_kind = FileEntry\<rparr>])],
      fs_stat = map_of
        [(''/lib'', dir_stats),
         (''/lib/clip1.mp4'', file_stats 10), (''/lib/clip2.mp4'', file_stats 20)],
      fs_content = (\<lambda>p. [])\<rparr>"

text \<open>Three levels: \<open>/lib/top.mp4\<close>, \<open>/lib/movies/a.mp4\<close> and
  \<open>/lib/movies/old/c.mp4\<close>.\<close>

definition shelf_fs :: filesystem where
  "shelf_fs =
     \<lparr>fs_readdir = map_of
        [(''/lib'', [\<lparr>d_name = ''top.mp4'', d_kind = FileEntry\<rparr>,
                     \<lparr>d_name = ''movies'', d_kind = DirectoryEntry\<rparr>]),
         (''/lib/movies'', [\<lparr>d_name = ''a.mp4'', d_kind = FileEntry\<rparr>,
                            \<lparr>d_name = ''old'', d_kind = DirectoryEntry\<rparr>]),
         (''/lib/movies/old'', [\<lparr>d_name = ''c.mp4'', d_kind = FileEntry\<rparr>])],
      fs_stat = map_of
        [(''/lib'', dir_stats), (''/lib/movies'', dir_stats), (''/lib/movies/old'', dir_stats),
         (''/lib/top.mp4'', file_stats 7), (''/lib/movies/a.mp4'', file_stats 8),
         (''/lib/movies/old/c.mp4'', file_stats 9)],
      fs_content = (\<lambda>p. [])\<rparr>"

text \<open>A directory \<open>/lib\<close> holding \<open>n\<close> regular files \<open>clip0.mp4\<close>, \<open>clip1.mp4\<close>, ...\<close>

definition clip_name :: "nat \<Rightarrow> string" where
  "clip_name i = ''clip'' @ string_of_nat i @ ''.mp4''"

definition many_clips_fs :: "nat \<Rightarrow> filesystem" where
  "many_clips_fs n =
     \<lparr>fs_readdir = (\<lambda>p. if p = ''/lib''
                         then Some (map (\<lambda>i. \<lparr>d_name = clip_name i, d_kind = FileEntry\<rparr>) [0..<n])
                         else None),
      fs_stat = (\<lambda>p. if p = ''/lib'' then Some dir_stats
                      else if startsWith p ''/lib/clip'' then Some (file_stats 1)
                      else None),
      fs_content = (\<lambda>p. [])\<rparr>"

section \<open>Facts about the string functions\<close>

lemma split_on_not_Nil: "split_on d s \<noteq> []"
  by (induction s) auto

lemma split_on_no_sep: "d \<notin> set s \<Longrightarrow> split_on d s = [s]"
  by (induction s) auto

lemma split_on_append: "split_on d (a @ d # b) = split_on d a @ split_on d b"
  by (induction a) (auto simp: split_on_not_Nil)

lemma split_on_parts_no_sep: "s \<in> set (split_on d x) \<Longrightarrow> d \<notin> set s"
proof (induction x arbitrary: s)
  case Nil
  then show ?case by simp
next
  case (Cons c cs)
  have ne: "split_on d cs \<noteq> []" by (rule split_on_not_Nil)
  then obtain h t where ht: "split_on d cs = h # t" by (cases "split_on d cs") auto
  show ?case
  proof (cases "c = d")
    case True
    with Cons show ?thesis by auto
  next
    case False
    with Cons.prems ht have "s = c # h \<or> s \<in> set t" by auto
    then show ?thesis
    proof
      assume "s = c # h"
      moreover have "d \<notin> set h" using Cons.IH [of h] ht by simp
      ultimately show ?thesis using False by auto
    next
      assume "s \<in> set t"
      then show ?thesis using Cons.IH [of s] ht by simp
    qed
  qed
qed

lemma join_with_Cons: "xs \<noteq> [] \<Longrightarrow> join_with sep (x # xs) = x @ sep @ join_with sep xs"
  by (cases xs) auto

lemma split_on_join:
  "segs \<noteq> [] \<Longrightarrow> \<forall>s\<in>set segs. d \<notin> set s \<Longrightarrow> split_on d (join_with [d] segs) = segs"
proof (induction segs rule: list_nonempty_induct)
  case (single x)
  then show ?case by (simp add: split_on_no_sep)
next
  case (cons x xs)
  have "split_on d (x @ d # join_with [d] xs) = split_on d x @ split_on d (join_with [d] xs)"
    by (rule split_on_append)
  with cons show ?case by (simp add: join_with_Cons split_on_no_sep)
qed

lemma digitChar_isDigit: "d < 10 \<Longrightarrow> isDigit (digitChar d)"
proof -
  assume "d < 10"
  then have "d \<in> {0,1,2,3,4,5,6,7,8,9}" by auto
  then show ?thesis by (auto simp: digitChar_def isDigit_def)
qed

lemma digitVal_digitChar: "d < 10 \<Longrightarrow> digitVal (digitChar d) = d"
proof -
  assume "d < 10"
  then have "d \<in> {0,1,2,3,4,5,6,7,8,9}" by auto
  then show ?thesis by (auto simp: digitChar_def digitVal_def)
qed

lemma string_of_nat_not_Nil: "string_of_nat n \<noteq> []"
  by (subst string_of_nat.simps) simp

lemma string_of_nat_digits: "c \<in> set (string_of_nat n) \<Longrightarrow> isDigit c"
proof (induction n arbitrary: c rule: string_of_nat.induct)
  case (1 n)
  show ?case
  proof (cases "n < 10")
    case True
    with "1.prems" show ?thesis
      by (subst (asm) string_of_nat.simps) (simp add: digitChar_isDigit)
  next
    case False
    from "1.prems" have "c \<in> set (string_of_nat (n div 10)) \<or> c = digitChar (n mod 10)"
      by (subst (asm) string_of_nat.simps) (use False in auto)
    then show ?thesis using "1.IH" [OF False] by (auto simp: digitChar_isDigit)
  qed
qed

lemma digits_value_string_of_nat: "digits_value (string_of_nat n) = n"
proof (induction n rule: string_of_nat.induct)
  case (1 n)
  show ?case
  proof (cases "n < 10")
    case True
    then show ?thesis
      by (subst string_of_nat.simps) (simp add: digits_value_def digitVal_digitChar)
  next
    case False
    have "digits_value (string_of_nat n)
          = 10 * digits_value (string_of_nat (n div 10)) + digitVal (digitChar (n mod 10))"
      by (subst string_of_nat.simps) (use False in \<open>simp add: digits_value_def\<close>)
    also have "\<dots> = 10 * (n div 10) + n mod 10"
      using "1.IH" [OF False] by (simp add: digitVal_digitChar)
    finally show ?thesis by simp
  qed
qed

lemma isDigit_not_special:
  "isDigit c \<Longrightarrow> \<not> isWhiteSpace c \<and> c \<noteq> CHR ''-'' \<and> c \<noteq> CHR ''+'' \<and> c \<noteq> CHR ''/''"
  by (auto simp: isDigit_def isWhiteSpace_def)

lemma parseInt_string_of_nat: "parseInt (string_of_nat n) = Some (int n)"
proof -
  obtain c cs where cs: "string_of_nat n = c # cs"
    using string_of_nat_not_Nil [of n] by (cases "string_of_nat n") auto
  have all: "\<forall>x\<in>set (c # cs). isDigit x"
    using string_of_nat_digits [of _ n] cs by auto
  then have c: "isDigit c" by simp
  have tw: "takeWhile isDigit (c # cs) = c # cs"
    using all by (simp add: takeWhile_eq_all_conv del: takeWhile.simps)
  have dw: "dropWhile isWhiteSpace (c # cs) = c # cs"
    using isDigit_not_special [OF c] by simp
  have "digits_value (c # cs) = n"
    using digits_value_string_of_nat [of n] cs by simp
  then show ?thesis
    using isDigit_not_special [OF c] tw
    unfolding parseInt_def cs dw by (simp add: Let_def)
qed

section \<open>Facts about the path functions\<close>

lemma normalizeSegment_keep:
  "plain s \<or> s = [] \<Longrightarrow> normalizeSegment a res s = res @ (if s = [] then [] else [s])"
  by (auto simp: normalizeSegment_def plain_def)

lemma foldl_normalize_plain:
  "\<forall>s\<in>set xs. plain s \<or> s = [] \<Longrightarrow>
   foldl (normalizeSegment a) res xs = res @ filter (\<lambda>s. s \<noteq> []) xs"
  by (induction xs arbitrary: res) (auto simp: normalizeSegment_keep)

lemma normalizeString_plain:
  assumes "\<forall>s\<in>set (absolute_segments p). plain s"
  shows "normalizeString p a = join_with ''/'' (absolute_segments p)"
proof -
  have "\<forall>s\<in>set (split_on path_sep p). plain s \<or> s = []"
    using assms by (auto simp: absolute_segments_def)
  then show ?thesis
    unfolding normalizeString_def normalizeSegments_def absolute_segments_def
    by (simp add: foldl_normalize_plain)
qed

lemma normalizeSegment_plain_inv:
  assumes "\<forall>s\<in>set res. plain s" and "path_sep \<notin> set x"
  shows "\<forall>s\<in>set (normalizeSegment False res x). plain s"
  using assms by (auto simp: normalizeSegment_def plain_def dest: in_set_butlastD)

lemma foldl_normalize_inv:
  "\<forall>s\<in>set res. plain s \<Longrightarrow> \<forall>x\<in>set xs. path_sep \<notin> set x \<Longrightarrow>
   \<forall>s\<in>set (foldl (normalizeSegment False) res xs). plain s"
proof (induction xs arbitrary: res)
  case Nil
  then show ?case by simp
next
  case (Cons x xs)
  have "\<forall>s\<in>set (normalizeSegment False res x). plain s"
    using Cons.prems by (intro normalizeSegment_plain_inv) auto
  then show ?case using Cons.IH Cons.prems by simp
qed

lemma normalizeSegments_False_plain: "\<forall>s\<in>set (normalizeSegments False (split_on path_sep p)). plain s"
  unfolding normalizeSegments_def
  by (rule foldl_normalize_inv) (auto dest: split_on_parts_no_sep)

lemma resolve_paths_abs:
  "cwd \<noteq> [] \<Longrightarrow> hd cwd = path_sep \<Longrightarrow> snd (resolve_paths (xs @ [cwd]) acc)"
  by (induction xs arbitrary: acc) auto

text \<open>With an absolute working directory, \<open>path.resolve\<close> returns a slash followed by
  ordinary segments joined with slashes.\<close>

lemma posix_resolve_abs_norm:
  assumes "cwd \<noteq> []" and "hd cwd = path_sep"
  shows "\<exists>segs. posix_resolve cwd args = ''/'' @ join_with ''/'' segs \<and> (\<forall>s\<in>set segs. plain s)"
proof -
  obtain rp ab where r: "resolve_paths (rev args @ [cwd]) [] = (rp, ab)"
    by (cases "resolve_paths (rev args @ [cwd]) []") auto
  have "ab" using resolve_paths_abs [OF assms, of "rev args" "[]"] r by simp
  then have "posix_resolve cwd args = ''/'' @ join_with ''/'' (normalizeSegments False (split_on path_sep rp))"
    by (simp add: posix_resolve_def r normalizeString_def)
  then show ?thesis using normalizeSegments_False_plain by blast
qed

lemma absolute_segments_Nil: "absolute_segments [] = []"
  by (simp add: absolute_segments_def)

lemma absolute_segments_append:
  "absolute_segments (a @ ''/'' @ b) = absolute_segments a @ absolute_segments b"
  using split_on_append [of path_sep a b]
  by (simp add: absolute_segments_def path_sep_def)

lemma absolute_segments_slash: "absolute_segments (''/'' @ b) = absolute_segments b"
  using absolute_segments_append [of "[]" b] by (simp add: absolute_segments_Nil)

lemma absolute_segments_trailing: "absolute_segments (a @ ''/'') = absolute_segments a"
  using absolute_segments_append [of a "[]"] by (simp add: absolute_segments_Nil)

lemma absolute_segments_join:
  assumes "\<forall>s\<in>set segs. plain s"
  shows "absolute_segments (join_with ''/'' segs) = segs"
proof (cases "segs = []")
  case True
  then show ?thesis by (simp add: absolute_segments_Nil)
next
  case False
  have "\<forall>s\<in>set segs. path_sep \<notin> set s" using assms by (simp add: plain_def)
  then have "split_on path_sep (join_with [path_sep] segs) = segs"
    using False by (intro split_on_join) auto
  moreover have "filter (\<lambda>s. s \<noteq> []) segs = segs"
    using assms by (auto simp: plain_def filter_id_conv)
  ultimately show ?thesis by (simp add: absolute_segments_def path_sep_def)
qed

lemma absolute_segments_plain: "plain s \<Longrightarrow> absolute_segments s = [s]"
  using absolute_segments_join [of "[s]"] by simp

lemma join_with_append:
  "xs \<noteq> [] \<Longrightarrow> ys \<noteq> [] \<Longrightarrow> join_with sep (xs @ ys) = join_with sep xs @ sep @ join_with sep ys"
  by (induction xs rule: list_nonempty_induct) (simp_all add: join_with_Cons)

lemma join_with_Nil_iff:
  assumes "\<forall>s\<in>set segs. s \<noteq> []"
  shows "join_with sep segs = [] \<longleftrightarrow> segs = []"
proof (cases segs)
  case Nil
  then show ?thesis by simp
next
  case (Cons a as)
  then show ?thesis using assms by (cases as) auto
qed

text \<open>Resolving a normalised absolute path gives the path back.\<close>

lemma posix_resolve_idem:
  assumes "\<forall>s\<in>set segs. plain s"
  shows "posix_resolve cwd [''/'' @ join_with ''/'' segs] = ''/'' @ join_with ''/'' segs"
proof -
  let ?p = "''/'' @ join_with ''/'' segs"
  have seg: "absolute_segments (?p @ ''/'') = segs"
    using assms by (simp only: absolute_segments_trailing absolute_segments_slash absolute_segments_join)
  have "normalizeString (?p @ ''/'') False = join_with ''/'' segs"
    using normalizeString_plain [of "?p @ ''/''" False] assms seg by simp
  then show ?thesis
    by (simp add: posix_resolve_def path_sep_def)
qed

section \<open>Path resolution stays inside the root\<close>

lemma abs_norm_no_parent_segment:
  assumes "\<forall>s\<in>set segs. plain s"
  shows "''..'' \<notin> set (split_on path_sep (''/'' @ join_with ''/'' segs))"
proof (cases "segs = []")
  case True
  then show ?thesis by (simp add: path_sep_def)
next
  case False
  have "\<forall>s\<in>set segs. path_sep \<notin> set s" using assms by (simp add: plain_def)
  then have "split_on path_sep (join_with [path_sep] segs) = segs"
    using False by (intro split_on_join) auto
  then have "split_on path_sep (''/'' @ join_with ''/'' segs) = [] # segs"
    by (simp add: path_sep_def)
  then show ?thesis using assms by (auto simp: plain_def)
qed

lemma sanitizePath_result:
  assumes "sanitizePath cfg cwd userPath = Inr resolved"
  shows "resolved = baseDir cfg cwd \<or>
         (resolved = posix_resolve cwd [baseDir cfg cwd, strip_parent_prefix (posix_normalize userPath)]
          \<and> startsWith resolved (baseDir cfg cwd @ [path_sep]))"
  using assms by (auto simp: sanitizePath_def Let_def split: if_splits)

text \<open>
  C2. Whenever \<open>sanitizePath\<close> succeeds, the path it returns is the root itself or begins
  with the root followed by the path separator; it is never the root extended by a
  character other than the separator (a sibling such as \<open>RootEvil\<close>); it has no \<open>..\<close>
  segment left, so the prefix is a true ancestor; and the empty path resolves to the root.
  The working directory of the process is absolute.
\<close>

theorem sanitizePath_within_root:
  assumes "cwd \<noteq> []" and "hd cwd = path_sep"
    and "sanitizePath cfg cwd userPath = Inr resolved"
  shows "(resolved = baseDir cfg cwd \<or> startsWith resolved (baseDir cfg cwd @ [path_sep]))
         \<and> (\<forall>c suffix. c \<noteq> path_sep \<longrightarrow> resolved \<noteq> baseDir cfg cwd @ c # suffix)
         \<and> ''..'' \<notin> set (split_on path_sep resolved)
         \<and> sanitizePath cfg cwd [] = Inr (baseDir cfg cwd)"
proof -
  have within: "resolved = baseDir cfg cwd \<or> startsWith resolved (baseDir cfg cwd @ [path_sep])"
    using sanitizePath_result [OF assms(3)] by blast
  have sibling: "resolved \<noteq> baseDir cfg cwd @ c # suffix" if "c \<noteq> path_sep" for c suffix
  proof
    assume eq: "resolved = baseDir cfg cwd @ c # suffix"
    from within show False
    proof
      assume "resolved = baseDir cfg cwd"
      with eq show False by simp
    next
      assume "startsWith resolved (baseDir cfg cwd @ [path_sep])"
      with eq that show False by (simp add: startsWith_def)
    qed
  qed
  have "\<exists>segs. resolved = ''/'' @ join_with ''/'' segs \<and> (\<forall>s\<in>set segs. plain s)"
    using sanitizePath_result [OF assms(3)] posix_resolve_abs_norm [OF assms(1,2)]
    by (auto simp: baseDir_def)
  then have noparent: "''..'' \<notin> set (split_on path_sep resolved)"
    using abs_norm_no_parent_segment by blast
  have "sanitizePath cfg cwd [] = Inr (baseDir cfg cwd)"
    by (simp add: sanitizePath_def)
  with within sibling noparent show ?thesis by blast
qed

theorem sanitizePath_within_root_witness:
  "sanitizePath lib_config ''/srv'' ''movies/a.mp4'' = Inr ''/lib/movies/a.mp4''
   \<and> baseDir lib_config ''/srv'' = ''/lib''
   \<and> startsWith ''/lib/movies/a.mp4'' (baseDir lib_config ''/srv'' @ [path_sep])
   \<and> ''..'' \<notin> set (split_on path_sep ''/lib/movies/a.mp4'')"
proof -
  have cwd: "''/srv'' \<noteq> []" "hd ''/srv'' = path_sep" by (simp_all add: path_sep_def)
  have ok: "sanitizePath lib_config ''/srv'' ''movies/a.mp4'' = Inr ''/lib/movies/a.mp4''"
    by code_simp
  have base: "baseDir lib_config ''/srv'' = ''/lib''" by code_simp
  have "''/lib/movies/a.mp4'' \<noteq> baseDir lib_config ''/srv''" by (simp add: base)
  then show ?thesis
    using sanitizePath_within_root [OF cwd ok] ok base by simp
qed

section \<open>Leading parent segments are stripped, not rejected\<close>

lemma split_on_parent_prefix:
  "split_on path_sep (parent_prefix k @ rest) = replicate k ''..'' @ split_on path_sep rest"
proof (induction k)
  case 0
  then show ?case by (simp add: parent_prefix_def)
next
  case (Suc k)
  have "parent_prefix (Suc k) @ rest = ''..'' @ path_sep # (parent_prefix k @ rest)"
    by (simp add: parent_prefix_def path_sep_def)
  then have "split_on path_sep (parent_prefix (Suc k) @ rest)
             = split_on path_sep ''..'' @ split_on path_sep (parent_prefix k @ rest)"
    by (simp only: split_on_append)
  then show ?case using Suc by (simp add: path_sep_def)
qed

lemma foldl_normalize_parents:
  "set res \<subseteq> {''..''} \<Longrightarrow>
   foldl (normalizeSegment True) res (replicate k ''..'') = res @ replicate k ''..''"
proof (induction k arbitrary: res)
  case 0
  then show ?case by simp
next
  case (Suc k)
  have last: "last res = ''..''" if "res \<noteq> []"
    using Suc.prems last_in_set [OF that] by auto
  then have step: "normalizeSegment True res ''..'' = res @ [''..'']"
    by (auto simp: normalizeSegment_def)
  have "set (res @ [''..'']) \<subseteq> {''..''}" using Suc.prems by simp
  from Suc.IH [OF this] step show ?case by (simp add: replicate_app_Cons_same)
qed

lemma normalizeSegments_parents_then_plain:
  assumes "\<forall>s\<in>set xs. plain s \<or> s = []"
  shows "normalizeSegments True (replicate k ''..'' @ xs)
         = replicate k ''..'' @ filter (\<lambda>s. s \<noteq> []) xs"
  unfolding normalizeSegments_def
  using foldl_normalize_parents [of "[]" k] foldl_normalize_plain [OF assms]
  by simp

lemma join_parents:
  "segs \<noteq> [] \<Longrightarrow> join_with ''/'' (replicate k ''..'' @ segs) = parent_prefix k @ join_with ''/'' segs"
  by (induction k) (simp_all add: parent_prefix_def join_with_Cons)

lemma join_parents_only:
  "0 < k \<Longrightarrow> join_with ''/'' (replicate k ''..'') @ ''/'' = parent_prefix k"
proof (induction k)
  case 0
  then show ?case by simp
next
  case (Suc k)
  then show ?case
    by (cases "k = 0") (simp_all add: parent_prefix_def join_with_Cons)
qed

lemma strip_parent_prefix_parents:
  "strip_parent_prefix (parent_prefix k @ rest) = strip_parent_prefix rest"
  by (induction k) (simp_all add: parent_prefix_def)

lemma set_join_with: "set (join_with sep segs) \<subseteq> set sep \<union> \<Union> (set ` set segs)"
  by (induction sep segs rule: join_with.induct) auto

lemma strip_parent_prefix_ordinary:
  assumes "segs \<noteq> []" and "\<forall>s\<in>set segs. plain s \<and> CHR 0x5C \<notin> set s"
  shows "strip_parent_prefix (join_with ''/'' segs) = join_with ''/'' segs"
proof -
  let ?j = "join_with ''/'' segs"
  have "\<forall>s\<in>set segs. path_sep \<notin> set s" using assms(2) by (simp add: plain_def)
  then have "split_on path_sep (join_with [path_sep] segs) = segs"
    using assms(1) by (intro split_on_join) auto
  then have sp: "split_on path_sep ?j = segs" by (simp add: path_sep_def)
  have nb: "CHR 0x5C \<notin> set ?j"
    using set_join_with [of "''/''" segs] assms(2) by auto
  have nd: "''..'' \<notin> set segs" using assms(2) by (auto simp: plain_def)
  have not_parent: "?j \<noteq> ''..''"
  proof
    assume "?j = ''..''"
    then have "split_on path_sep ?j = [''..'']" by (simp add: path_sep_def)
    with sp nd show False by auto
  qed
  show ?thesis
  proof (cases ?j)
    case Nil
    then show ?thesis by simp
  next
    case j1: (Cons a t)
    show ?thesis
    proof (cases t)
      case Nil
      with j1 show ?thesis by simp
    next
      case j2: (Cons b u)
      show ?thesis
      proof (cases u)
        case Nil
        with j1 j2 not_parent show ?thesis by auto
      next
        case (Cons c rest)
        have "\<not> (a = CHR ''.'' \<and> b = CHR ''.'' \<and> (c = CHR ''/'' \<or> c = CHR 0x5C))"
        proof
          assume h: "a = CHR ''.'' \<and> b = CHR ''.'' \<and> (c = CHR ''/'' \<or> c = CHR 0x5C)"
          then have "c = CHR ''/''" using nb j1 j2 Cons by auto
          with h j1 j2 Cons have "split_on path_sep ?j = ''..'' # split_on path_sep rest"
            by (simp add: path_sep_def)
          with sp nd show False by auto
        qed
        with j1 j2 Cons show ?thesis by auto
      qed
    qed
  qed
qed

lemma plain_ends: "plain x \<Longrightarrow> x \<noteq> [] \<and> hd x \<noteq> path_sep \<and> last x \<noteq> path_sep"
proof -
  assume p: "plain x"
  then have ne: "x \<noteq> []" and ns: "path_sep \<notin> set x" by (simp_all add: plain_def)
  have "hd x \<in> set x" "last x \<in> set x" using ne by simp_all
  with ne ns show ?thesis by metis
qed

lemma hd_join_plain:
  assumes "segs \<noteq> []" and "\<forall>s\<in>set segs. plain s"
  shows "join_with ''/'' segs \<noteq> [] \<and> hd (join_with ''/'' segs) \<noteq> path_sep
         \<and> last (join_with ''/'' segs) \<noteq> path_sep"
  using assms
proof (induction segs rule: list_nonempty_induct)
  case (single x)
  then show ?case using plain_ends [of x] by simp
next
  case (cons x xs)
  have x: "x \<noteq> []" "hd x \<noteq> path_sep" using plain_ends [of x] cons.prems by simp_all
  have ih: "join_with ''/'' xs \<noteq> [] \<and> last (join_with ''/'' xs) \<noteq> path_sep"
    using cons by simp
  show ?case using x ih cons(1) by (simp add: join_with_Cons)
qed

text \<open>Resolving ordinary segments against a normalised absolute base appends them.\<close>

lemma posix_resolve_under:
  assumes "\<forall>s\<in>set bsegs. plain s" and "segs \<noteq> []" and "\<forall>s\<in>set segs. plain s"
  shows "posix_resolve cwd [''/'' @ join_with ''/'' bsegs, join_with ''/'' segs]
         = ''/'' @ join_with ''/'' (bsegs @ segs)"
proof -
  let ?b = "''/'' @ join_with ''/'' bsegs" and ?j = "join_with ''/'' segs"
  have j: "?j \<noteq> []" "hd ?j \<noteq> path_sep" using hd_join_plain [OF assms(2,3)] by simp_all
  have rp: "resolve_paths (rev [?b, ?j] @ [cwd]) [] = (?b @ ''/'' @ ?j @ ''/'', True)"
    using j by (simp add: path_sep_def)
  have "absolute_segments (?b @ ''/'' @ ?j @ ''/'') = bsegs @ segs"
    using assms(1,3)
    by (simp only: absolute_segments_append absolute_segments_trailing
          absolute_segments_slash absolute_segments_join)
  then have "normalizeString (?b @ ''/'' @ ?j @ ''/'') False = join_with ''/'' (bsegs @ segs)"
    using normalizeString_plain [of "?b @ ''/'' @ ?j @ ''/''" False] assms(1,3) by auto
  then show ?thesis
    unfolding posix_resolve_def rp by simp
qed

lemma posix_normalize_parents:
  assumes "\<forall>s\<in>set segs. plain s" and "0 < k \<or> segs \<noteq> []"
  shows "posix_normalize (parent_prefix k @ join_with ''/'' segs) = parent_prefix k @ join_with ''/'' segs"
proof -
  let ?p = "parent_prefix k @ join_with ''/'' segs"
  have split: "split_on path_sep ?p = replicate k ''..'' @ split_on path_sep (join_with ''/'' segs)"
    by (rule split_on_parent_prefix)
  have filt: "filter (\<lambda>s. s \<noteq> []) (split_on path_sep (join_with ''/'' segs)) = segs"
    using absolute_segments_join [OF assms(1)] by (simp add: absolute_segments_def)
  have parts: "\<forall>s\<in>set (split_on path_sep (join_with ''/'' segs)). plain s \<or> s = []"
  proof
    fix s assume s: "s \<in> set (split_on path_sep (join_with ''/'' segs))"
    show "plain s \<or> s = []"
    proof (cases "s = []")
      case False
      with s have "s \<in> set (filter (\<lambda>s. s \<noteq> []) (split_on path_sep (join_with ''/'' segs)))"
        by simp
      then show ?thesis using assms(1) by (simp only: filt) simp
    qed simp
  qed
  have ns: "normalizeString ?p True = join_with ''/'' (replicate k ''..'' @ segs)"
    unfolding normalizeString_def split
    using normalizeSegments_parents_then_plain [OF parts, of k] filt by simp
  show ?thesis
  proof (cases "segs = []")
    case True
    with assms(2) have k: "0 < k" by simp
    then obtain k' where k': "k = Suc k'" by (cases k) auto
    have p: "?p = parent_prefix k" using True by simp
    have ne0: "parent_prefix k \<noteq> []" "hd (parent_prefix k) \<noteq> path_sep"
      by (simp_all add: k' parent_prefix_def path_sep_def)
    have "last (join_with ''/'' (replicate k ''..'') @ ''/'') = path_sep"
      by (simp add: path_sep_def)
    then have "last (parent_prefix k) = path_sep"
      by (simp only: join_parents_only [OF k])
    note ne = ne0 this
    have "join_with ''/'' (replicate k ''..'') \<noteq> []"
      by (simp add: k' join_with_Cons) (cases k'; simp)
    then show ?thesis
      using ns ne join_parents_only [OF k] True
      by (simp add: posix_normalize_def Let_def)
  next
    case False
    have j: "join_with ''/'' segs \<noteq> []" "hd (join_with ''/'' segs) \<noteq> path_sep"
      "last (join_with ''/'' segs) \<noteq> path_sep"
      using hd_join_plain [OF False assms(1)] by simp_all
    have eq: "join_with ''/'' (replicate k ''..'' @ segs) = ?p"
      by (rule join_parents [OF False])
    have hd: "hd ?p \<noteq> path_sep"
      using j by (cases k) (simp_all add: parent_prefix_def path_sep_def)
    show ?thesis
      using ns eq j hd by (simp add: posix_normalize_def Let_def)
  qed
qed

lemma baseDir_abs_norm:
  assumes "cwd \<noteq> []" and "hd cwd = path_sep"
  shows "\<exists>bsegs. baseDir cfg cwd = ''/'' @ join_with ''/'' bsegs \<and> (\<forall>s\<in>set bsegs. plain s)"
  unfolding baseDir_def by (rule posix_resolve_abs_norm [OF assms])

lemma posix_resolve_skip_empty: "posix_resolve cwd [b, []] = posix_resolve cwd [b]"
  by (simp add: posix_resolve_def)

text \<open>
  C3, counterexample. Against the root \<open>/lib\<close>, the path \<open>../../etc/passwd\<close> needs only
  one \<open>..\<close> to leave the root and has two; \<open>sanitizePath\<close> does not fail on it but
  returns \<open>/lib/etc/passwd\<close>.
\<close>

theorem sanitizePath_parent_segments_counterexample:
  "sanitizePath lib_config ''/srv'' ''../../etc/passwd'' = Inr ''/lib/etc/passwd''
   \<and> sanitizePath lib_config ''/srv'' ''../../etc/passwd'' \<noteq> Inl TraversalDetected"
proof -
  have "sanitizePath lib_config ''/srv'' ''../../etc/passwd'' = Inr ''/lib/etc/passwd''"
    by code_simp
  then show ?thesis by simp
qed

text \<open>
  C3, as the code has it. A path made of any number of leading \<open>..\<close> segments followed by
  ordinary segments (no slash or backslash in them) is never rejected: the leading
  \<open>..\<close> segments are stripped after normalisation and the rest is resolved under the
  root. The function takes the configuration, the working directory and the path, and no
  file system. The traversal error is what an absolute path outside the root gets, such as
  \<open>/etc/passwd\<close> against \<open>/lib\<close>. The root is not the top directory \<open>/\<close>.
\<close>

theorem sanitizePath_strips_parent_segments:
  assumes "cwd \<noteq> []" and "hd cwd = path_sep"
    and "baseDir cfg cwd \<noteq> ''/''"
    and "\<forall>s\<in>set segs. plain s \<and> CHR 0x5C \<notin> set s"
  shows "sanitizePath cfg cwd (parent_prefix k @ join_with ''/'' segs)
           = Inr (if segs = [] then baseDir cfg cwd
                  else baseDir cfg cwd @ ''/'' @ join_with ''/'' segs)
         \<and> sanitizePath lib_config ''/srv'' ''/etc/passwd'' = Inl TraversalDetected"
proof -
  obtain bsegs where b: "baseDir cfg cwd = ''/'' @ join_with ''/'' bsegs"
    and bp: "\<forall>s\<in>set bsegs. plain s"
    using baseDir_abs_norm [OF assms(1,2)] by blast
  have bne: "bsegs \<noteq> []" using assms(3) b by auto
  have pl: "\<forall>s\<in>set segs. plain s" using assms(4) by simp
  let ?p = "parent_prefix k @ join_with ''/'' segs"
  have main: "sanitizePath cfg cwd ?p
              = Inr (if segs = [] then baseDir cfg cwd
                     else baseDir cfg cwd @ ''/'' @ join_with ''/'' segs)"
  proof (cases "segs = []")
    case True
    show ?thesis
    proof (cases "k = 0")
      case True
      with \<open>segs = []\<close> show ?thesis by (simp add: sanitizePath_def parent_prefix_def)
    next
      case False
      then have pn: "posix_normalize (parent_prefix k) = parent_prefix k"
        using posix_normalize_parents [OF pl, of k] \<open>segs = []\<close> by simp
      have st: "strip_parent_prefix (parent_prefix k) = []"
        using strip_parent_prefix_parents [of k "[]"] by simp
      have "posix_resolve cwd [baseDir cfg cwd, []] = baseDir cfg cwd"
        using posix_resolve_idem [OF bp, of cwd] by (simp add: posix_resolve_skip_empty b)
      then show ?thesis
        using \<open>segs = []\<close> by (simp add: sanitizePath_def pn st Let_def)
    qed
  next
    case False
    have pn: "posix_normalize ?p = ?p"
      using posix_normalize_parents [OF pl, of k] False by simp
    have st: "strip_parent_prefix ?p = join_with ''/'' segs"
      using strip_parent_prefix_parents [of k "join_with ''/'' segs"]
        strip_parent_prefix_ordinary [OF False assms(4)] by simp
    have jn: "join_with ''/'' segs \<noteq> []" using hd_join_plain [OF False pl] by simp
    then have pne: "?p \<noteq> []" by simp
    have "posix_resolve cwd [baseDir cfg cwd, join_with ''/'' segs]
          = ''/'' @ join_with ''/'' (bsegs @ segs)"
      unfolding b by (rule posix_resolve_under [OF bp False pl])
    also have "\<dots> = baseDir cfg cwd @ ''/'' @ join_with ''/'' segs"
      by (simp add: b join_with_append [OF bne False])
    finally have full: "posix_resolve cwd [baseDir cfg cwd, join_with ''/'' segs]
                        = baseDir cfg cwd @ ''/'' @ join_with ''/'' segs" .
    show ?thesis
      using False pne
      by (simp add: sanitizePath_def pn st full Let_def startsWith_def path_sep_def)
  qed
  have "sanitizePath lib_config ''/srv'' ''/etc/passwd'' = Inl TraversalDetected"
    by code_simp
  with main show ?thesis by simp
qed

theorem sanitizePath_strips_parent_segments_witness:
  "baseDir lib_config ''/srv'' \<noteq> ''/''
   \<and> plain ''etc'' \<and> plain ''passwd''
   \<and> parent_prefix 2 @ join_with ''/'' [''etc'', ''passwd''] = ''../../etc/passwd''
   \<and> sanitizePath lib_config ''/srv'' (parent_prefix 2 @ join_with ''/'' [''etc'', ''passwd''])
       = Inr (baseDir lib_config ''/srv'' @ ''/etc/passwd'')"
proof -
  have cwd: "''/srv'' \<noteq> []" "hd ''/srv'' = path_sep" by (simp_all add: path_sep_def)
  have base: "baseDir lib_config ''/srv'' \<noteq> ''/''" by code_simp
  have segs: "\<forall>s\<in>set [''etc'', ''passwd'']. plain s \<and> CHR 0x5C \<notin> set s"
    by (simp add: plain_def path_sep_def)
  have pp: "parent_prefix 2 @ join_with ''/'' [''etc'', ''passwd''] = ''../../etc/passwd''"
    by (simp add: parent_prefix_def eval_nat_numeral)
  show ?thesis
    using sanitizePath_strips_parent_segments [OF cwd base segs, of 2] base segs pp by simp
qed

text \<open>The earlier variant strips the parent segments in the same way, and joins an
  absolute path under the root instead of rejecting it.\<close>

lemma sanitizePath_variant_examples:
  "sanitizePath_variant lib_config ''../../etc/passwd'' = Inr ''/lib/etc/passwd''"
  "sanitizePath_variant lib_config ''/etc/passwd'' = Inr ''/lib/etc/passwd''"
  "sanitizePath_variant lib_config ''movies/a.mp4'' = Inr ''/lib/movies/a.mp4''"
  by code_simp+

section \<open>Rejected paths and the handlers\<close>

lemma sanitizePath_error: "sanitizePath cfg cwd p = Inl e \<Longrightarrow> e = TraversalDetected \<and> p \<noteq> []"
  by (auto simp: sanitizePath_def Let_def split: if_splits)

text \<open>
  C4, counterexample. Authenticated requests against the root \<open>/lib\<close> of the small
  library: \<open>/api/video?path=../../etc/passwd\<close> is answered 500 (the path is re-rooted to
  \<open>/lib/etc/passwd\<close>, which does not exist, and the rejected \<open>stat\<close> reaches the
  catch-all), and so are \<open>/api/video?path=/etc/passwd\<close> and \<open>/api/browse?path=/etc\<close>,
  where \<open>sanitizePath\<close> throws.
\<close>

theorem traversal_status_counterexample:
  "status (video_handler lib_config ''/srv'' lib_fs
      \<lparr>authenticated = True, query_path = Some ''../../etc/passwd'', range_header = None\<rparr>) = 500
   \<and> video_handler lib_config ''/srv'' lib_fs
      \<lparr>authenticated = True, query_path = Some ''/etc/passwd'', range_header = None\<rparr>
     = \<lparr>status = 500, headers = [], body = ErrorBody TraversalDetected\<rparr>
   \<and> browse_handler lib_config ''/srv'' lib_fs
      \<lparr>authenticated = True, query_path = Some ''/etc'', range_header = None\<rparr>
     = \<lparr>status = 500, headers = [], body = ErrorBody TraversalDetected\<rparr>"
proof -
  have s1: "sanitizePath lib_config ''/srv'' ''../../etc/passwd'' = Inr ''/lib/etc/passwd''"
    by code_simp
  have s2: "sanitizePath lib_config ''/srv'' ''/etc/passwd'' = Inl TraversalDetected"
    by code_simp
  have s3: "sanitizePath lib_config ''/srv'' ''/etc'' = Inl TraversalDetected"
    by code_simp
  have st: "fs_stat lib_fs ''/lib/etc/passwd'' = None"
    by (simp add: lib_fs_def)
  show ?thesis
    by (simp add: video_handler_def browse_handler_def json_error_def s1 s2 s3 st)
qed

text \<open>
  C4, as the code has it. When \<open>sanitizePath\<close> rejects the path parameter of an
  authenticated request, \<open>/api/video\<close> and \<open>/api/browse\<close> both answer with status 500
  and the JSON error of the traversal, whatever the file system holds: a server error, not
  a client error, and no file bytes.
\<close>

theorem traversal_rejected_is_500:
  assumes "authenticated req" and "query_path req = Some p"
    and "sanitizePath cfg cwd p = Inl e"
  shows "video_handler cfg cwd fs req = \<lparr>status = 500, headers = [], body = ErrorBody TraversalDetected\<rparr>
         \<and> browse_handler cfg cwd fs req = \<lparr>status = 500, headers = [], body = ErrorBody TraversalDetected\<rparr>"
proof -
  have e: "e = TraversalDetected" and p: "p \<noteq> []"
    using sanitizePath_error [OF assms(3)] by simp_all
  show ?thesis
    using assms e p by (simp add: video_handler_def browse_handler_def json_error_def)
qed

theorem traversal_rejected_is_500_witness:
  "sanitizePath lib_config ''/srv'' ''/etc/passwd'' = Inl TraversalDetected
   \<and> status (video_handler lib_config ''/srv'' lib_fs
        \<lparr>authenticated = True, query_path = Some ''/etc/passwd'', range_header = None\<rparr>) = 500
   \<and> status (browse_handler lib_config ''/srv'' lib_fs
        \<lparr>authenticated = True, query_path = Some ''/etc/passwd'', range_header = None\<rparr>) = 500"
proof -
  let ?req = "\<lparr>authenticated = True, query_path = Some ''/etc/passwd'', range_header = None\<rparr>"
  have a: "authenticated ?req" and q: "query_path ?req = Some ''/etc/passwd''" by simp_all
  have s: "sanitizePath lib_config ''/srv'' ''/etc/passwd'' = Inl TraversalDetected"
    by code_simp
  show ?thesis
    using traversal_rejected_is_500 [OF a q s, of lib_fs] s by simp
qed

text \<open>Whenever \<open>/api/video\<close> sends bytes at all, they are bytes of a regular video
  file at a path that \<open>sanitizePath\<close> accepted.\<close>

lemma video_bytes_only_from_root:
  assumes "body (video_handler cfg cwd fs req) = BytesBody b"
  shows "\<exists>p fullPath st. query_path req = Some p \<and> sanitizePath cfg cwd p = Inr fullPath
           \<and> fs_stat fs fullPath = Some st \<and> st_isFile st \<and> isVideoFile cfg fullPath"
  using assms
  by (auto simp: video_handler_def json_error_def Let_def
           split: if_splits option.splits sum.splits)

section \<open>The single-level listing\<close>

lemma list_items_never_depth_error:
  "list_items cfg cwd fs dirPath items folders files \<noteq> Inr DepthExceeded"
  by (induction items arbitrary: folders files)
     (auto simp: Let_def split: option.splits)

text \<open>
  C10. The depth guard of \<open>readDirectoryRecursive\<close> cannot fire when the function is
  called with \<open>currentDepth = 0\<close>, as \<open>/api/browse\<close> does (the function has no call to
  itself): the result is never the \<open>{error: ...}\<close> object, the body of a browse
  response is never that object, and a browse response with status 200 carries a
  \<open>{folders, files}\<close> object.
\<close>

theorem browse_never_depth_error:
  "readDirectoryRecursive cfg cwd fs dirPath 0 \<noteq> Inr DepthExceeded
   \<and> body (browse_handler cfg cwd fs req) \<noteq> ListingBody DepthExceeded
   \<and> (status (browse_handler cfg cwd fs req) = 200 \<longrightarrow>
        (\<exists>folders files. body (browse_handler cfg cwd fs req) = ListingBody (Listing folders files)))"
proof -
  have rd: "readDirectoryRecursive cfg cwd fs p 0 \<noteq> Inr DepthExceeded" for p
    using list_items_never_depth_error [of cfg cwd fs p _ "[]" "[]"]
    by (auto simp: readDirectoryRecursive_def split: option.splits sum.splits)
  have rl: "\<exists>fo fi. r = Listing fo fi" if "readDirectoryRecursive cfg cwd fs p 0 = Inr r" for p r
    using rd [of p] that by (cases r) auto
  have b: "body (browse_handler cfg cwd fs req) \<noteq> ListingBody DepthExceeded"
    using rd
    by (auto simp: browse_handler_def json_error_def Let_def split: option.splits sum.splits)
  have c: "\<exists>folders files. body (browse_handler cfg cwd fs req) = ListingBody (Listing folders files)"
    if "status (browse_handler cfg cwd fs req) = 200"
    using that rl
    by (auto simp: browse_handler_def json_error_def Let_def split: option.splits sum.splits if_splits)
  from rd b c show ?thesis by blast
qed

lemma lib_movies_paths:
  "posix_join [''/lib/movies'', ''a.mp4''] = ''/lib/movies/a.mp4''"
  "posix_relative ''/srv'' ''/lib'' ''/lib/movies/a.mp4'' = ''movies/a.mp4''"
  "getFileType lib_config ''a.mp4'' = ''video''"
  by code_simp+

lemma lib_movies_listing:
  "readDirectoryRecursive lib_config ''/srv'' lib_fs ''/lib/movies'' 0
   = Inr (Listing [] [\<lparr>fi_name = ''a.mp4'', fi_path = ''movies/a.mp4'', fi_type = ''video'',
                       fi_size = 500000, fi_modified = 0\<rparr>])"
proof -
  have v: "videoDirectory lib_config = ''/lib''" by (simp add: lib_config_def)
  show ?thesis
    by (simp add: readDirectoryRecursive_def lib_fs_def Let_def startsWith_def isMediaFile_def
          lib_movies_paths v file_stats_def)
qed

theorem browse_never_depth_error_witness:
  "status (browse_handler lib_config ''/srv'' lib_fs
     \<lparr>authenticated = True, query_path = Some ''movies'', range_header = None\<rparr>) = 200
   \<and> (\<exists>folders files. body (browse_handler lib_config ''/srv'' lib_fs
         \<lparr>authenticated = True, query_path = Some ''movies'', range_header = None\<rparr>)
       = ListingBody (Listing folders files))"
proof -
  let ?req = "\<lparr>authenticated = True, query_path = Some ''movies'', range_header = None\<rparr>"
  have s: "sanitizePath lib_config ''/srv'' ''movies'' = Inr ''/lib/movies''" by code_simp
  have st: "fs_stat lib_fs ''/lib/movies'' = Some dir_stats" by (simp add: lib_fs_def)
  have ok: "status (browse_handler lib_config ''/srv'' lib_fs ?req) = 200"
    by (simp add: browse_handler_def s st lib_movies_listing dir_stats_def)
  show ?thesis
    using browse_never_depth_error [of lib_config "''/srv''" lib_fs "''/lib/movies''" ?req] ok
    by blast
qed

section \<open>An invariant rule for the search\<close>

text \<open>
  A property \<open>P\<close> of the search state holds after \<open>searchDir\<close> when it holds before and
  every update of the state keeps it. \<open>Q\<close> is what is known of the directory being
  searched and its depth; it must pass from a directory to each sub-directory that is
  not hidden.
\<close>

lemma search_invariant_aux:
  assumes descend: "\<And>dirPath depth (item :: dirent).
      Q dirPath depth \<Longrightarrow> depth \<le> maxRecursionDepth cfg0 \<Longrightarrow>
      entry_of fs0 dirPath item \<Longrightarrow>
      \<not> startsWith (d_name item) ''.'' \<Longrightarrow> d_kind item = DirectoryEntry \<Longrightarrow>
      Q (posix_join [dirPath, d_name item]) (depth + 1)"
    and readdir: "\<And>(st :: search_state) dirPath depth.
      P st \<Longrightarrow> Q dirPath depth \<Longrightarrow> depth \<le> maxRecursionDepth cfg0 \<Longrightarrow>
      P (st\<lparr>calls := calls st @ [ReaddirCall dirPath depth]\<rparr>)"
    and stat: "\<And>(st :: search_state) dirPath depth (item :: dirent).
      P st \<Longrightarrow> Q dirPath depth \<Longrightarrow> depth \<le> maxRecursionDepth cfg0 \<Longrightarrow>
      entry_of fs0 dirPath item \<Longrightarrow>
      \<not> startsWith (d_name item) ''.'' \<Longrightarrow> d_kind item = FileEntry \<Longrightarrow>
      P (st\<lparr>calls := calls st @ [StatCall (posix_join [dirPath, d_name item])]\<rparr>)"
    and push: "\<And>(st :: search_state) dirPath depth (item :: dirent) (s :: stats).
      P st \<Longrightarrow> Q dirPath depth \<Longrightarrow> depth \<le> maxRecursionDepth cfg0 \<Longrightarrow>
      entry_of fs0 dirPath item \<Longrightarrow>
      \<not> startsWith (d_name item) ''.'' \<Longrightarrow> d_kind item = FileEntry \<Longrightarrow>
      P (st\<lparr>results := results st @
              [\<lparr>sr_name = d_name item,
                sr_path = posix_relative cwd0 (videoDirectory cfg0)
                            (posix_join [dirPath, d_name item]),
                sr_folder = folder_of (posix_relative cwd0 (videoDirectory cfg0)
                                        (posix_join [dirPath, d_name item])),
                sr_type = getFileType cfg0 (d_name item),
                sr_size = st_size s, sr_modified = st_mtime s\<rparr>],
            calls := calls st @ [StatCall (posix_join [dirPath, d_name item])]\<rparr>)"
  shows "cfg = cfg0 \<and> cwd = cwd0 \<and> fs = fs0 \<longrightarrow> P st \<longrightarrow> Q dirPath depth \<longrightarrow>
         P (searchDir cfg cwd fs lq mr dirPath depth st)"
    and "cfg = cfg0 \<and> cwd = cwd0 \<and> fs = fs0 \<longrightarrow> P st \<longrightarrow> Q dirPath depth \<longrightarrow>
         depth \<le> maxRecursionDepth cfg0 \<longrightarrow> (\<forall>i\<in>set items. entry_of fs0 dirPath i) \<longrightarrow>
         P (searchItems cfg cwd fs lq mr dirPath depth items st)"
proof (induction cfg cwd fs lq mr dirPath depth st and cfg cwd fs lq mr dirPath depth items st
       rule: searchDir_searchItems.induct)
  case (1 cfg cwd fs lq mr dirPath depth st)
  show ?case
  proof (intro impI)
    assume eq: "cfg = cfg0 \<and> cwd = cwd0 \<and> fs = fs0" and P: "P st" and Q: "Q dirPath depth"
    show "P (searchDir cfg cwd fs lq mr dirPath depth st)"
    proof (cases "maxRecursionDepth cfg < depth \<or> mr \<le> length (results st)")
      case True
      then show ?thesis using P by (simp add: searchDir.simps)
    next
      case False
      then have d: "depth \<le> maxRecursionDepth cfg0" using eq by simp
      have P': "P (st\<lparr>calls := calls st @ [ReaddirCall dirPath depth]\<rparr>)"
        by (rule readdir [OF P Q d])
      show ?thesis
      proof (cases "fs_readdir fs dirPath")
        case None
        then show ?thesis using False P' by (simp add: searchDir.simps)
      next
        case (Some items)
        have en: "\<forall>i\<in>set items. entry_of fs0 dirPath i"
          using Some eq by (simp add: entry_of_def)
        have "P (searchItems cfg cwd fs lq mr dirPath depth items
                  (st\<lparr>calls := calls st @ [ReaddirCall dirPath depth]\<rparr>))"
          using "1.IH" [OF False Some] eq P' Q d en by blast
        then show ?thesis using False Some by (simp add: searchDir.simps)
      qed
    qed
  qed
next
  case (2 cfg cwd fs lq mr dirPath depth st)
  then show ?case by simp
next
  case (3 cfg cwd fs lq mr dirPath depth item items st)
  show ?case
  proof (intro impI)
    assume eq: "cfg = cfg0 \<and> cwd = cwd0 \<and> fs = fs0" and P: "P st" and Q: "Q dirPath depth"
      and d: "depth \<le> maxRecursionDepth cfg0"
      and en: "\<forall>i\<in>set (item # items). entry_of fs0 dirPath i"
    have eni: "entry_of fs0 dirPath item" and ens: "\<forall>i\<in>set items. entry_of fs0 dirPath i"
      using en by simp_all
    show "P (searchItems cfg cwd fs lq mr dirPath depth (item # items) st)"
    proof (cases "startsWith (d_name item) ''.''")
      case True
      have "P (searchItems cfg cwd fs lq mr dirPath depth items st)"
        using "3.IH"(1) [OF True] eq P Q d ens by blast
      then show ?thesis using True by simp
    next
      case nh: False
      show ?thesis
      proof (cases "d_kind item = DirectoryEntry")
        case True
        have Q': "Q (posix_join [dirPath, d_name item]) (depth + 1)"
          by (rule descend [OF Q d eni nh True])
        have "P (searchDir cfg cwd fs lq mr (posix_join [dirPath, d_name item]) (depth + 1) st)"
          using "3.IH"(2) [OF nh True] eq P Q' by blast
        then have "P (searchItems cfg cwd fs lq mr dirPath depth items
                       (searchDir cfg cwd fs lq mr (posix_join [dirPath, d_name item]) (depth + 1) st))"
          using "3.IH"(3) [OF nh True] eq Q d ens by blast
        then show ?thesis using nh True by simp
      next
        case nd: False
        show ?thesis
        proof (cases "d_kind item = FileEntry \<and> isMediaFile (d_name item)")
          case isfile: True
          show ?thesis
          proof (cases "str_includes (toLowerCase (d_name item)) lq")
            case inc: True
            show ?thesis
            proof (cases "fs_stat fs (posix_join [dirPath, d_name item])")
              case None
              have "P (st\<lparr>calls := calls st @ [StatCall (posix_join [dirPath, d_name item])]\<rparr>)"
                using stat [OF P Q d eni nh] isfile by simp
              then show ?thesis using nh nd isfile inc None by simp
            next
              case (Some s)
              have "P (st\<lparr>results := results st @
                        [\<lparr>sr_name = d_name item,
                          sr_path = posix_relative cwd0 (videoDirectory cfg0)
                                      (posix_join [dirPath, d_name item]),
                          sr_folder = folder_of (posix_relative cwd0 (videoDirectory cfg0)
                                                  (posix_join [dirPath, d_name item])),
                          sr_type = getFileType cfg0 (d_name item),
                          sr_size = st_size s, sr_modified = st_mtime s\<rparr>],
                      calls := calls st @ [StatCall (posix_join [dirPath, d_name item])]\<rparr>)"
                using push [OF P Q d eni nh] isfile by simp
              then have "P (searchItems cfg cwd fs lq mr dirPath depth items
                  (st\<lparr>results := results st @
                        [\<lparr>sr_name = d_name item,
                          sr_path = posix_relative cwd (videoDirectory cfg)
                                      (posix_join [dirPath, d_name item]),
                          sr_folder = folder_of (posix_relative cwd (videoDirectory cfg)
                                                  (posix_join [dirPath, d_name item])),
                          sr_type = getFileType cfg (d_name item),
                          sr_size = st_size s, sr_modified = st_mtime s\<rparr>],
                      calls := calls st @ [StatCall (posix_join [dirPath, d_name item])]\<rparr>))"
                using "3.IH"(4) [OF nh nd isfile inc Some] eq Q d ens by blast
              then show ?thesis using nh nd isfile inc Some by simp
            qed
          next
            case False
            have "P (searchItems cfg cwd fs lq mr dirPath depth items st)"
              using "3.IH"(5) [OF nh nd isfile False] eq P Q d ens by blast
            then show ?thesis using nh nd isfile False by simp
          qed
        next
          case False
          have "P (searchItems cfg cwd fs lq mr dirPath depth items st)"
            using "3.IH"(6) [OF nh nd False] eq P Q d ens by blast
          then show ?thesis using nh nd False by auto
        qed
      qed
    qed
  qed
qed

lemma search_invariant:
  assumes "\<And>dirPath depth (item :: dirent).
      Q dirPath depth \<Longrightarrow> depth \<le> maxRecursionDepth cfg \<Longrightarrow>
      entry_of fs dirPath item \<Longrightarrow>
      \<not> startsWith (d_name item) ''.'' \<Longrightarrow> d_kind item = DirectoryEntry \<Longrightarrow>
      Q (posix_join [dirPath, d_name item]) (depth + 1)"
    and "\<And>(st :: search_state) dirPath depth.
      P st \<Longrightarrow> Q dirPath depth \<Longrightarrow> depth \<le> maxRecursionDepth cfg \<Longrightarrow>
      P (st\<lparr>calls := calls st @ [ReaddirCall dirPath depth]\<rparr>)"
    and "\<And>(st :: search_state) dirPath depth (item :: dirent).
      P st \<Longrightarrow> Q dirPath depth \<Longrightarrow> depth \<le> maxRecursionDepth cfg \<Longrightarrow>
      entry_of fs dirPath item \<Longrightarrow>
      \<not> startsWith (d_name item) ''.'' \<Longrightarrow> d_kind item = FileEntry \<Longrightarrow>
      P (st\<lparr>calls := calls st @ [StatCall (posix_join [dirPath, d_name item])]\<rparr>)"
    and "\<And>(st :: search_state) dirPath depth (item :: dirent) (s :: stats).
      P st \<Longrightarrow> Q dirPath depth \<Longrightarrow> depth \<le> maxRecursionDepth cfg \<Longrightarrow>
      entry_of fs dirPath item \<Longrightarrow>
      \<not> startsWith (d_name item) ''.'' \<Longrightarrow> d_kind item = FileEntry \<Longrightarrow>
      P (st\<lparr>results := results st @
              [\<lparr>sr_name = d_name item,
                sr_path = posix_relative cwd (videoDirectory cfg)
                            (posix_join [dirPath, d_name item]),
                sr_folder = folder_of (posix_relative cwd (videoDirectory cfg)
                                        (posix_join [dirPath, d_name item])),
                sr_type = getFileType cfg (d_name item),
                sr_size = st_size s, sr_modified = st_mtime s\<rparr>],
            calls := calls st @ [StatCall (posix_join [dirPath, d_name item])]\<rparr>)"
    and "P st" and "Q dirPath depth"
  shows "P (searchDir cfg cwd fs lq mr dirPath depth st)"
  using search_invariant_aux(1) [of Q cfg fs P cwd cfg cwd fs st dirPath depth lq mr] assms
  by blast

section \<open>The folder of a search result\<close>

lemma dirname_scan_Some: "dirname_scan p i m = Some e \<Longrightarrow> 1 \<le> e \<and> e \<le> i"
  by (induction p i m rule: dirname_scan.induct) (auto split: if_splits)

lemma posix_dirname_not_Nil: "posix_dirname p \<noteq> []"
proof (cases "p = []")
  case True
  then show ?thesis by (simp add: posix_dirname_def)
next
  case False
  show ?thesis
  proof (cases "dirname_scan p (length p - 1) True")
    case None
    then show ?thesis using False by (simp add: posix_dirname_def Let_def)
  next
    case (Some e)
    then have "1 \<le> e" using dirname_scan_Some by blast
    then show ?thesis using False Some by (auto simp: posix_dirname_def Let_def)
  qed
qed

lemma dirname_scan_no_sep:
  "\<forall>k. 1 \<le> k \<and> k \<le> i \<longrightarrow> p ! k \<noteq> path_sep \<Longrightarrow> dirname_scan p i m = None"
  by (induction p i m rule: dirname_scan.induct) auto

lemma posix_dirname_bare: "path_sep \<notin> set p \<Longrightarrow> posix_dirname p = ''.''"
proof (cases "p = []")
  case True
  then show ?thesis by (simp add: posix_dirname_def)
next
  case False
  assume ns: "path_sep \<notin> set p"
  have "\<forall>k. 1 \<le> k \<and> k \<le> length p - 1 \<longrightarrow> p ! k \<noteq> path_sep"
  proof (intro allI impI)
    fix k assume "1 \<le> k \<and> k \<le> length p - 1"
    then have "k < length p" using False by (cases p) auto
    then have "p ! k \<in> set p" by simp
    with ns show "p ! k \<noteq> path_sep" by metis
  qed
  then have sc: "dirname_scan p (length p - 1) True = None" by (rule dirname_scan_no_sep)
  have "hd p \<in> set p" using False by simp
  with ns have "hd p \<noteq> path_sep" by metis
  then show ?thesis using False sc by (simp add: posix_dirname_def Let_def)
qed

lemma folder_of_dirname: "folder_of rel = posix_dirname rel"
  by (simp add: folder_of_def Let_def posix_dirname_not_Nil)

lemma posix_join_under:
  assumes "\<forall>s\<in>set bsegs. plain s" and "plain name"
  shows "posix_join [''/'' @ join_with ''/'' bsegs, name] = ''/'' @ join_with ''/'' (bsegs @ [name])"
proof -
  let ?b = "''/'' @ join_with ''/'' bsegs"
  let ?j = "?b @ ''/'' @ name"
  have n: "name \<noteq> []" "last name \<noteq> path_sep" using plain_ends [OF assms(2)] by simp_all
  have seg: "absolute_segments ?j = bsegs @ [name]"
    using assms
    by (simp only: absolute_segments_append absolute_segments_slash absolute_segments_join
          absolute_segments_plain)
  have "\<forall>s\<in>set (absolute_segments ?j). plain s" using seg assms by simp
  then have ns: "normalizeString ?j False = join_with ''/'' (bsegs @ [name])"
    using normalizeString_plain [of ?j False] seg by simp
  have ne: "join_with ''/'' (bsegs @ [name]) \<noteq> []"
    using join_with_Nil_iff [of "bsegs @ [name]" "''/''"] assms by (auto simp: plain_def)
  have "posix_normalize ?j = ''/'' @ join_with ''/'' (bsegs @ [name])"
    using n ns ne by (simp add: posix_normalize_def Let_def path_sep_def)
  then show ?thesis using n by (simp add: posix_join_def Let_def)
qed

lemma drop_common_prefix: "drop_common xs (xs @ ys) = ([], ys)"
proof (induction xs)
  case Nil
  then show ?case by (cases ys) auto
next
  case (Cons x xs)
  then show ?case by simp
qed

lemma abs_norm_inject:
  assumes "\<forall>s\<in>set xs. plain s" and "\<forall>s\<in>set ys. plain s"
    and "''/'' @ join_with ''/'' xs = ''/'' @ join_with ''/'' ys"
  shows "xs = ys"
proof -
  have "absolute_segments (join_with ''/'' xs) = absolute_segments (join_with ''/'' ys)"
    using assms(3) by simp
  then show ?thesis using assms(1,2) by (simp only: absolute_segments_join)
qed

text \<open>The path of a descendant, relative to the root, is made of the names below the root.\<close>

lemma posix_relative_under:
  assumes "posix_resolve cwd [vd] = ''/'' @ join_with ''/'' bsegs"
    and "\<forall>s\<in>set bsegs. plain s" and "\<forall>s\<in>set names. plain s"
  shows "posix_relative cwd vd (''/'' @ join_with ''/'' (bsegs @ names)) = join_with ''/'' names"
proof -
  let ?to = "''/'' @ join_with ''/'' (bsegs @ names)"
  have pl: "\<forall>s\<in>set (bsegs @ names). plain s" using assms(2,3) by auto
  have to': "posix_resolve cwd [?to] = ?to" by (rule posix_resolve_idem [OF pl])
  have same: "names = []" if "posix_resolve cwd [vd] = ?to"
    using abs_norm_inject [OF assms(2) pl] that assms(1) by simp
  show ?thesis
  proof (cases "vd = ?to")
    case True
    then have "posix_resolve cwd [vd] = ?to" using to' by simp
    then have "names = []" by (rule same)
    then show ?thesis using True by (simp add: posix_relative_def)
  next
    case False
    show ?thesis
    proof (cases "posix_resolve cwd [vd] = ?to")
      case True
      then have "names = []" by (rule same)
      then show ?thesis using False True to' by (simp add: posix_relative_def Let_def)
    next
      case ne: False
      have s1: "absolute_segments (posix_resolve cwd [vd]) = bsegs"
        unfolding assms(1) using assms(2)
        by (simp only: absolute_segments_slash absolute_segments_join)
      have s2: "absolute_segments ?to = bsegs @ names"
        using pl by (simp only: absolute_segments_slash absolute_segments_join)
      show ?thesis
        using False ne to' s1 s2
        by (simp add: posix_relative_def Let_def drop_common_prefix)
    qed
  qed
qed

lemma search_results_folder:
  "\<forall>r\<in>set (searchVideosRecursive cfg cwd fs startPath query maxResults).
     sr_folder r = folder_of (sr_path r)"
proof -
  let ?P = "\<lambda>st :: search_state. \<forall>r\<in>set (results st). sr_folder r = folder_of (sr_path r)"
  have "?P (searchDir cfg cwd fs (toLowerCase query) maxResults startPath 0
              \<lparr>results = [], calls = []\<rparr>)"
    by (rule search_invariant [where P = ?P and Q = "\<lambda>_ _. True"]) simp_all
  then show ?thesis by (simp add: searchVideosRecursive_def search_run_def)
qed

text \<open>
  C9. The fallback \<open>'Home'\<close> in \<open>path.dirname(relativePath) || 'Home'\<close> is never taken,
  because \<open>path.dirname\<close> never returns the empty string: the folder of every search
  result is the \<open>dirname\<close> of its path. For a file directly in the root (an ordinary
  name, joined to the root), the relative path is the bare file name and the folder is
  \<open>.\<close>; so is the folder of every search result whose path has no slash. The working
  directory of the process is absolute.
\<close>

theorem search_folder_in_root:
  assumes "cwd \<noteq> []" and "hd cwd = path_sep" and "plain name"
  shows "folder_of rel = posix_dirname rel \<and> posix_dirname rel \<noteq> []
         \<and> posix_relative cwd (videoDirectory cfg) (posix_join [baseDir cfg cwd, name]) = name
         \<and> folder_of (posix_relative cwd (videoDirectory cfg) (posix_join [baseDir cfg cwd, name]))
             = ''.''
         \<and> (\<forall>r\<in>set (searchVideosRecursive cfg cwd fs startPath query maxResults).
               sr_folder r = posix_dirname (sr_path r) \<and> sr_folder r \<noteq> []
               \<and> (path_sep \<notin> set (sr_path r) \<longrightarrow> sr_folder r = ''.''))"
proof -
  obtain bsegs where b: "baseDir cfg cwd = ''/'' @ join_with ''/'' bsegs"
    and bp: "\<forall>s\<in>set bsegs. plain s"
    using baseDir_abs_norm [OF assms(1,2)] by blast
  have j: "posix_join [baseDir cfg cwd, name] = ''/'' @ join_with ''/'' (bsegs @ [name])"
    unfolding b by (rule posix_join_under [OF bp assms(3)])
  have "posix_relative cwd (videoDirectory cfg) (''/'' @ join_with ''/'' (bsegs @ [name]))
        = join_with ''/'' [name]"
    by (rule posix_relative_under [OF b [unfolded baseDir_def] bp]) (simp add: assms(3))
  then have rel: "posix_relative cwd (videoDirectory cfg) (posix_join [baseDir cfg cwd, name]) = name"
    by (simp add: j)
  have "path_sep \<notin> set name" using assms(3) by (simp add: plain_def)
  then have dot: "folder_of name = ''.''"
    by (simp add: folder_of_dirname posix_dirname_bare)
  have res: "sr_folder r = posix_dirname (sr_path r) \<and> sr_folder r \<noteq> []
             \<and> (path_sep \<notin> set (sr_path r) \<longrightarrow> sr_folder r = ''.'')"
    if "r \<in> set (searchVideosRecursive cfg cwd fs startPath query maxResults)" for r
    using search_results_folder [of cfg cwd fs startPath query maxResults] that
    by (auto simp: folder_of_dirname posix_dirname_not_Nil posix_dirname_bare)
  have a: "folder_of rel = posix_dirname rel \<and> posix_dirname rel \<noteq> []"
    by (simp add: folder_of_dirname posix_dirname_not_Nil)
  have c: "folder_of (posix_relative cwd (videoDirectory cfg) (posix_join [baseDir cfg cwd, name]))
           = ''.''"
    using rel dot by simp
  from a rel c res show ?thesis by blast
qed

lemma two_clips_paths:
  "posix_join [''/lib'', ''clip1.mp4''] = ''/lib/clip1.mp4''"
  "posix_join [''/lib'', ''clip2.mp4''] = ''/lib/clip2.mp4''"
  "posix_relative ''/srv'' ''/lib'' ''/lib/clip1.mp4'' = ''clip1.mp4''"
  "posix_relative ''/srv'' ''/lib'' ''/lib/clip2.mp4'' = ''clip2.mp4''"
  "getFileType lib_config ''clip1.mp4'' = ''video''"
  "getFileType lib_config ''clip2.mp4'' = ''video''"
  "str_includes (toLowerCase ''clip1.mp4'') (toLowerCase ''clip'')"
  "str_includes (toLowerCase ''clip2.mp4'') (toLowerCase ''clip'')"
  "folder_of ''clip1.mp4'' = ''.''"
  "folder_of ''clip2.mp4'' = ''.''"
  by code_simp+

lemma two_clips_search:
  "searchVideosRecursive lib_config ''/srv'' two_clips_fs ''/lib'' ''clip'' maxResults
   = (if maxResults = 0 then []
      else [\<lparr>sr_name = ''clip1.mp4'', sr_path = ''clip1.mp4'', sr_folder = ''.'',
              sr_type = ''video'', sr_size = 10, sr_modified = 0\<rparr>,
            \<lparr>sr_name = ''clip2.mp4'', sr_path = ''clip2.mp4'', sr_folder = ''.'',
              sr_type = ''video'', sr_size = 20, sr_modified = 0\<rparr>])"
proof -
  have v: "videoDirectory lib_config = ''/lib''" by (simp add: lib_config_def)
  show ?thesis
    by (simp add: searchVideosRecursive_def search_run_def searchDir.simps two_clips_fs_def
          startsWith_def isMediaFile_def two_clips_paths v file_stats_def)
qed

theorem search_folder_in_root_witness:
  "plain ''clip1.mp4''
   \<and> posix_join [baseDir lib_config ''/srv'', ''clip1.mp4''] = ''/lib/clip1.mp4''
   \<and> posix_relative ''/srv'' (videoDirectory lib_config)
         (posix_join [baseDir lib_config ''/srv'', ''clip1.mp4'']) = ''clip1.mp4''
   \<and> folder_of (posix_relative ''/srv'' (videoDirectory lib_config)
                  (posix_join [baseDir lib_config ''/srv'', ''clip1.mp4''])) = ''.''
   \<and> folder_of [] = posix_dirname [] \<and> posix_dirname [] \<noteq> []
   \<and> map sr_folder (searchVideosRecursive lib_config ''/srv'' two_clips_fs ''/lib'' ''clip'' 100)
       = [''.'', ''.'']"
proof -
  have cwd: "''/srv'' \<noteq> []" "hd ''/srv'' = path_sep" by (simp_all add: path_sep_def)
  have pn: "plain ''clip1.mp4''" by (simp add: plain_def path_sep_def)
  have j: "posix_join [baseDir lib_config ''/srv'', ''clip1.mp4''] = ''/lib/clip1.mp4''"
    by code_simp
  have m: "map sr_folder (searchVideosRecursive lib_config ''/srv'' two_clips_fs ''/lib'' ''clip'' 100)
           = [''.'', ''.'']"
    by (simp add: two_clips_search)
  show ?thesis
    using search_folder_in_root
            [OF cwd pn, of "[]" lib_config two_clips_fs "''/lib''" "''clip''" 100]
      pn j m
    by blast
qed

section \<open>The cap on the number of results\<close>

text \<open>In a directory of regular files that all match, every file is pushed: the loop over
  the entries never looks at \<open>maxResults\<close>.\<close>

lemma searchItems_all_files:
  assumes "\<forall>item\<in>set items.
             \<not> startsWith (d_name item) ''.'' \<and> d_kind item = FileEntry
             \<and> str_includes (toLowerCase (d_name item)) lq
             \<and> fs_stat fs (posix_join [dirPath, d_name item]) \<noteq> None"
  shows "length (results (searchItems cfg cwd fs lq mr dirPath depth items st))
         = length (results st) + length items"
  using assms
proof (induction items arbitrary: st)
  case Nil
  then show ?case by simp
next
  case (Cons item items)
  then obtain s where s: "fs_stat fs (posix_join [dirPath, d_name item]) = Some s" by auto
  have "length (results (searchItems cfg cwd fs lq mr dirPath depth (item # items) st))
        = length (results (searchItems cfg cwd fs lq mr dirPath depth items
            (st\<lparr>results := results st @
                  [\<lparr>sr_name = d_name item,
                    sr_path = posix_relative cwd (videoDirectory cfg)
                                (posix_join [dirPath, d_name item]),
                    sr_folder = folder_of (posix_relative cwd (videoDirectory cfg)
                                            (posix_join [dirPath, d_name item])),
                    sr_type = getFileType cfg (d_name item),
                    sr_size = st_size s, sr_modified = st_mtime s\<rparr>],
                calls := calls st @ [StatCall (posix_join [dirPath, d_name item])]\<rparr>)))"
    using Cons.prems s by (simp add: isMediaFile_def)
  also have "\<dots> = length (results st) + 1 + length items"
    using Cons.IH Cons.prems by simp
  finally show ?case by simp
qed

lemma plain_clip_name: "plain (clip_name i)"
proof -
  have "path_sep \<notin> set (string_of_nat i)"
    using string_of_nat_digits [of path_sep i] by (auto simp: isDigit_def path_sep_def)
  then show ?thesis by (simp add: plain_def clip_name_def path_sep_def)
qed

lemma clip_name_matches:
  "\<not> startsWith (clip_name i) ''.''"
  "str_includes (toLowerCase (clip_name i)) (toLowerCase ''clip'')"
  by (simp_all add: clip_name_def startsWith_def toLowerCase_def lower_char_def)

lemma clip_name_stat:
  "fs_stat (many_clips_fs n) (posix_join [''/lib'', clip_name i]) = Some (file_stats 1)"
proof -
  have "posix_join [''/'' @ join_with ''/'' [''lib''], clip_name i]
        = ''/'' @ join_with ''/'' ([''lib''] @ [clip_name i])"
  proof (rule posix_join_under)
    show "\<forall>s\<in>set [''lib'']. plain s" by (simp add: plain_def path_sep_def)
    show "plain (clip_name i)" by (rule plain_clip_name)
  qed
  then have "posix_join [''/lib'', clip_name i] = ''/lib/'' @ clip_name i" by simp
  then show ?thesis by (simp add: many_clips_fs_def startsWith_def clip_name_def)
qed

lemma many_clips_search_length:
  "0 < maxResults \<Longrightarrow>
   length (searchVideosRecursive lib_config ''/srv'' (many_clips_fs n) ''/lib'' ''clip'' maxResults) = n"
proof -
  assume m: "0 < maxResults"
  let ?items = "map (\<lambda>i. \<lparr>d_name = clip_name i, d_kind = FileEntry\<rparr>) [0..<n]"
  have rd: "fs_readdir (many_clips_fs n) ''/lib'' = Some ?items"
    by (simp add: many_clips_fs_def)
  have all: "\<forall>item\<in>set ?items.
               \<not> startsWith (d_name item) ''.'' \<and> d_kind item = FileEntry
               \<and> str_includes (toLowerCase (d_name item)) (toLowerCase ''clip'')
               \<and> fs_stat (many_clips_fs n) (posix_join [''/lib'', d_name item]) \<noteq> None"
    using clip_name_matches clip_name_stat by auto
  show ?thesis
    using m searchItems_all_files [OF all]
    by (simp add: searchVideosRecursive_def search_run_def searchDir.simps rd)
qed

text \<open>
  C6, the failing input. \<open>/api/search\<close> calls the search with the default cap of 100. In
  a directory holding 101 files whose names all contain the query, the search returns 101
  results: the cap is tested when \<open>searchDir\<close> is entered, not when a result is pushed.
\<close>

theorem search_exceeds_max_results:
  "length (searchVideosRecursive lib_config ''/srv'' (many_clips_fs 101) ''/lib'' ''clip'' 100) = 101"
  by (rule many_clips_search_length) simp

section \<open>What the search reads and returns\<close>

lemma descend_snoc: "descend start (names @ [n]) = posix_join [descend start names, n]"
  by (simp add: descend_def)

lemma visible_snoc: "visible (names @ [n]) \<longleftrightarrow> visible names \<and> \<not> startsWith n ''.''"
  by (simp add: visible_def)

text \<open>The search only ever appends to \<open>results\<close>.\<close>

lemma search_results_grow:
  "\<exists>more. results (searchDir cfg cwd fs lq mr dirPath depth st) = results st @ more"
proof -
  let ?P = "\<lambda>st' :: search_state. \<exists>more. results st' = results st @ more"
  show ?thesis
    by (rule search_invariant [where P = ?P and Q = "\<lambda>_ _. True"]) auto
qed

lemma lib_root_paths:
  "posix_join [''/lib'', ''movies''] = ''/lib/movies''"
  "posix_join [''/lib'', ''.hidden''] = ''/lib/.hidden''"
  "str_includes (toLowerCase ''a.mp4'') (toLowerCase ''mp4'')"
  "folder_of ''movies/a.mp4'' = ''movies''"
  by code_simp+

text \<open>Entering one more sub-directory extends the chain at its end.\<close>

lemma descend_Cons: "descend start (n # names) = descend (posix_join [start, n]) names"
  by (simp add: descend_def)

lemma subdir_chain_snoc:
  "subdir_chain fs start (names @ [n]) \<longleftrightarrow>
     subdir_chain fs start names
     \<and> entry_of fs (descend start names) \<lparr>d_name = n, d_kind = DirectoryEntry\<rparr>
     \<and> \<not> startsWith n ''.''"
  by (induction names arbitrary: start) (auto simp: descend_def)

lemma subdir_chain_visible: "subdir_chain fs start names \<Longrightarrow> visible names"
  by (induction names arbitrary: start) (auto simp: visible_def)

lemma subdir_chain_plain:
  assumes "\<forall>p (item :: dirent). entry_of fs p item \<longrightarrow> plain (d_name item)"
  shows "subdir_chain fs start names \<Longrightarrow> \<forall>n\<in>set names. plain n"
proof (induction names arbitrary: start)
  case Nil
  then show ?case by simp
next
  case (Cons n ns)
  have "plain (d_name \<lparr>d_name = n, d_kind = DirectoryEntry\<rparr>)"
    by (rule assms [rule_format, of start]) (use Cons.prems in simp)
  moreover have "\<forall>n\<in>set ns. plain n"
    by (rule Cons.IH [of "posix_join [start, n]"]) (use Cons.prems in simp)
  ultimately show ?case by simp
qed

text \<open>Below a normalised absolute path, and with names that are single path segments,
  \<open>descend\<close> appends the names as segments.\<close>

lemma descend_plain:
  assumes "\<forall>s\<in>set ssegs. plain s" and "\<forall>n\<in>set names. plain n"
  shows "descend (''/'' @ join_with ''/'' ssegs) names = ''/'' @ join_with ''/'' (ssegs @ names)"
  using assms
proof (induction names arbitrary: ssegs)
  case Nil
  then show ?case by (simp add: descend_def)
next
  case (Cons n ns)
  have pn: "plain n" and pns: "\<forall>n\<in>set ns. plain n" using Cons.prems(2) by simp_all
  have j: "posix_join [''/'' @ join_with ''/'' ssegs, n] = ''/'' @ join_with ''/'' (ssegs @ [n])"
    by (rule posix_join_under [OF Cons.prems(1) pn])
  have ps: "\<forall>s\<in>set (ssegs @ [n]). plain s" using Cons.prems(1) pn by simp
  have "descend (''/'' @ join_with ''/'' ssegs) (n # ns)
        = descend (posix_join [''/'' @ join_with ''/'' ssegs, n]) ns"
    by (rule descend_Cons)
  also have "\<dots> = descend (''/'' @ join_with ''/'' (ssegs @ [n])) ns"
    by (simp only: j)
  also have "\<dots> = ''/'' @ join_with ''/'' ((ssegs @ [n]) @ ns)"
    by (rule Cons.IH [OF ps pns])
  finally show ?case by simp
qed

text \<open>Every \<open>readdir\<close> of the search is on a directory reached from the start through a
  chain of directory entries that are not hidden, as many as the depth says, and the depth
  is within the cap; every \<open>stat\<close> and every result is for a file entry, not hidden, of
  such a directory.\<close>

lemma search_trace:
  fixes cfg cwd fs startPath
  defines "reached \<equiv> \<lambda>p d. \<exists>names. length names = d \<and> subdir_chain fs startPath names
                \<and> p = descend startPath names"
  defines "file_in \<equiv> \<lambda>p name. \<exists>names item. length names \<le> maxRecursionDepth cfg
                \<and> subdir_chain fs startPath names
                \<and> entry_of fs (descend startPath names) item \<and> d_kind item = FileEntry
                \<and> \<not> startsWith (d_name item) ''.'' \<and> name = d_name item
                \<and> p = posix_join [descend startPath names, d_name item]"
  shows "(\<forall>c\<in>set (calls (search_run cfg cwd fs startPath query maxResults)).
            case c of ReaddirCall p d \<Rightarrow> d \<le> maxRecursionDepth cfg \<and> reached p d
                    | StatCall p \<Rightarrow> (\<exists>name. file_in p name))
         \<and> (\<forall>r\<in>set (results (search_run cfg cwd fs startPath query maxResults)).
              \<exists>p. file_in p (sr_name r) \<and> sr_path r = posix_relative cwd (videoDirectory cfg) p)"
proof -
  let ?P = "\<lambda>st :: search_state.
      (\<forall>c\<in>set (calls st).
          case c of ReaddirCall p d \<Rightarrow> d \<le> maxRecursionDepth cfg \<and> reached p d
                  | StatCall p \<Rightarrow> (\<exists>name. file_in p name))
      \<and> (\<forall>r\<in>set (results st).
            \<exists>p. file_in p (sr_name r) \<and> sr_path r = posix_relative cwd (videoDirectory cfg) p)"
  have "?P (searchDir cfg cwd fs (toLowerCase query) maxResults startPath 0
              \<lparr>results = [], calls = []\<rparr>)"
  proof (rule search_invariant [where P = ?P and Q = reached])
    show "?P \<lparr>results = [], calls = []\<rparr>" by simp
    show "reached startPath 0" by (simp add: reached_def descend_def)
  next
    fix dirPath depth and item :: dirent
    assume "reached dirPath depth" and e: "entry_of fs dirPath item"
      and h: "\<not> startsWith (d_name item) ''.''" and k: "d_kind item = DirectoryEntry"
    then obtain names where n: "length names = depth" "subdir_chain fs startPath names"
        "dirPath = descend startPath names"
      by (auto simp: reached_def)
    have i: "item = \<lparr>d_name = d_name item, d_kind = DirectoryEntry\<rparr>" using k by (cases item) simp
    have "entry_of fs (descend startPath names) \<lparr>d_name = d_name item, d_kind = DirectoryEntry\<rparr>"
      using e n(3) i by simp
    then have "length (names @ [d_name item]) = depth + 1
          \<and> subdir_chain fs startPath (names @ [d_name item])
          \<and> posix_join [dirPath, d_name item] = descend startPath (names @ [d_name item])"
      using n h by (simp add: descend_snoc subdir_chain_snoc)
    then show "reached (posix_join [dirPath, d_name item]) (depth + 1)"
      unfolding reached_def by blast
  next
    fix st :: search_state and dirPath depth
    assume "?P st" "reached dirPath depth" "depth \<le> maxRecursionDepth cfg"
    then show "?P (st\<lparr>calls := calls st @ [ReaddirCall dirPath depth]\<rparr>)" by simp
  next
    fix st :: search_state and dirPath depth and item :: dirent
    assume P: "?P st" and r: "reached dirPath depth" and d: "depth \<le> maxRecursionDepth cfg"
      and e: "entry_of fs dirPath item" and h: "\<not> startsWith (d_name item) ''.''"
      and f: "d_kind item = FileEntry"
    have "file_in (posix_join [dirPath, d_name item]) (d_name item)"
      using r d e h f unfolding reached_def file_in_def by blast
    then show "?P (st\<lparr>calls := calls st @ [StatCall (posix_join [dirPath, d_name item])]\<rparr>)"
      using P by auto
  next
    fix st :: search_state and dirPath depth and item :: dirent and s :: stats
    assume P: "?P st" and r: "reached dirPath depth" and d: "depth \<le> maxRecursionDepth cfg"
      and e: "entry_of fs dirPath item" and h: "\<not> startsWith (d_name item) ''.''"
      and f: "d_kind item = FileEntry"
    have "file_in (posix_join [dirPath, d_name item]) (d_name item)"
      using r d e h f unfolding reached_def file_in_def by blast
    then show "?P (st\<lparr>results := results st @
              [\<lparr>sr_name = d_name item,
                sr_path = posix_relative cwd (videoDirectory cfg)
                            (posix_join [dirPath, d_name item]),
                sr_folder = folder_of (posix_relative cwd (videoDirectory cfg)
                                        (posix_join [dirPath, d_name item])),
                sr_type = getFileType cfg (d_name item),
                sr_size = st_size s, sr_modified = st_mtime s\<rparr>],
            calls := calls st @ [StatCall (posix_join [dirPath, d_name item])]\<rparr>)"
      using P by auto
  qed
  then show ?thesis by (simp add: search_run_def)
qed

text \<open>When the names that \<open>readdir\<close> returns are single path segments, as those of a
  real directory are, and the start is a normalised absolute path, the chain is the list
  of the path segments below the start: a directory read at depth \<open>d\<close> lies exactly
  \<open>d\<close> segments below the start, and no segment below the start has a leading dot.\<close>

lemma search_trace_segments:
  assumes wf: "\<forall>p (item :: dirent). entry_of fs p item \<longrightarrow> plain (d_name item)"
    and start: "startPath = ''/'' @ join_with ''/'' ssegs" "\<forall>s\<in>set ssegs. plain s"
  shows "(\<forall>c\<in>set (calls (search_run cfg cwd fs startPath query maxResults)).
            case c of
              ReaddirCall p d \<Rightarrow>
                d \<le> maxRecursionDepth cfg
                \<and> (\<exists>names. length names = d \<and> visible names \<and> (\<forall>n\<in>set names. plain n)
                      \<and> p = ''/'' @ join_with ''/'' (ssegs @ names))
            | StatCall p \<Rightarrow>
                (\<exists>names. names \<noteq> [] \<and> length names \<le> maxRecursionDepth cfg + 1
                      \<and> visible names \<and> (\<forall>n\<in>set names. plain n)
                      \<and> p = ''/'' @ join_with ''/'' (ssegs @ names)))
         \<and> (\<forall>r\<in>set (results (search_run cfg cwd fs startPath query maxResults)).
              \<exists>names. names \<noteq> [] \<and> last names = sr_name r
                \<and> length names \<le> maxRecursionDepth cfg + 1
                \<and> visible names \<and> (\<forall>n\<in>set names. plain n)
                \<and> sr_path r = posix_relative cwd (videoDirectory cfg)
                                 (''/'' @ join_with ''/'' (ssegs @ names)))"
proof -
  note tr = search_trace [of cfg cwd fs startPath query maxResults]
  have dir: "visible names \<and> (\<forall>n\<in>set names. plain n)
             \<and> descend startPath names = ''/'' @ join_with ''/'' (ssegs @ names)"
    if "subdir_chain fs startPath names" for names
  proof -
    have p: "\<forall>n\<in>set names. plain n" using subdir_chain_plain [OF wf that] .
    have "descend (''/'' @ join_with ''/'' ssegs) names = ''/'' @ join_with ''/'' (ssegs @ names)"
      by (rule descend_plain [OF start(2) p])
    then show ?thesis using p subdir_chain_visible [OF that] start(1) by simp
  qed
  have fil: "visible (names @ [d_name item]) \<and> (\<forall>n\<in>set (names @ [d_name item]). plain n)
             \<and> posix_join [descend startPath names, d_name item]
                 = ''/'' @ join_with ''/'' (ssegs @ (names @ [d_name item]))"
    if c: "subdir_chain fs startPath names" and e: "entry_of fs (descend startPath names) item"
      and h: "\<not> startsWith (d_name item) ''.''" for names and item :: dirent
  proof -
    have pi: "plain (d_name item)" using wf e by blast
    have ps: "\<forall>s\<in>set (ssegs @ names). plain s" using start(2) dir [OF c] by auto
    have "posix_join [''/'' @ join_with ''/'' (ssegs @ names), d_name item]
          = ''/'' @ join_with ''/'' ((ssegs @ names) @ [d_name item])"
      by (rule posix_join_under [OF ps pi])
    moreover have "descend startPath names = ''/'' @ join_with ''/'' (ssegs @ names)"
      using dir [OF c] by simp
    ultimately have "posix_join [descend startPath names, d_name item]
          = ''/'' @ join_with ''/'' (ssegs @ (names @ [d_name item]))"
      by (simp only: append_assoc)
    then show ?thesis using dir [OF c] pi h by (simp add: visible_snoc)
  qed
  have a: "case c of
              ReaddirCall p d \<Rightarrow>
                d \<le> maxRecursionDepth cfg
                \<and> (\<exists>names. length names = d \<and> visible names \<and> (\<forall>n\<in>set names. plain n)
                      \<and> p = ''/'' @ join_with ''/'' (ssegs @ names))
            | StatCall p \<Rightarrow>
                (\<exists>names. names \<noteq> [] \<and> length names \<le> maxRecursionDepth cfg + 1
                      \<and> visible names \<and> (\<forall>n\<in>set names. plain n)
                      \<and> p = ''/'' @ join_with ''/'' (ssegs @ names))"
    if cin: "c \<in> set (calls (search_run cfg cwd fs startPath query maxResults))" for c
  proof (cases c)
    case (ReaddirCall p d)
    then obtain names where n: "d \<le> maxRecursionDepth cfg" "length names = d"
        "subdir_chain fs startPath names" "p = descend startPath names"
      using tr [THEN conjunct1, rule_format, OF cin] by auto
    have "length names = d \<and> visible names \<and> (\<forall>n\<in>set names. plain n)
          \<and> p = ''/'' @ join_with ''/'' (ssegs @ names)"
      using n dir [OF n(3)] by simp
    then show ?thesis using ReaddirCall n(1) by auto
  next
    case (StatCall p)
    then obtain names and item :: dirent where n: "length names \<le> maxRecursionDepth cfg"
        "subdir_chain fs startPath names" "entry_of fs (descend startPath names) item"
        "\<not> startsWith (d_name item) ''.''" "p = posix_join [descend startPath names, d_name item]"
      using tr [THEN conjunct1, rule_format, OF cin] by auto
    let ?ns = "names @ [d_name item]"
    have "?ns \<noteq> [] \<and> length ?ns \<le> maxRecursionDepth cfg + 1
          \<and> visible ?ns \<and> (\<forall>n\<in>set ?ns. plain n) \<and> p = ''/'' @ join_with ''/'' (ssegs @ ?ns)"
      using n(1,5) fil [OF n(2,3,4)] by simp
    then have "\<exists>names. names \<noteq> [] \<and> length names \<le> maxRecursionDepth cfg + 1
          \<and> visible names \<and> (\<forall>n\<in>set names. plain n) \<and> p = ''/'' @ join_with ''/'' (ssegs @ names)"
      by blast
    then show ?thesis using StatCall by simp
  qed
  have b: "\<exists>names. names \<noteq> [] \<and> last names = sr_name r
                \<and> length names \<le> maxRecursionDepth cfg + 1
                \<and> visible names \<and> (\<forall>n\<in>set names. plain n)
                \<and> sr_path r = posix_relative cwd (videoDirectory cfg)
                                 (''/'' @ join_with ''/'' (ssegs @ names))"
    if rin: "r \<in> set (results (search_run cfg cwd fs startPath query maxResults))" for r
  proof -
    from tr [THEN conjunct2, rule_format, OF rin] obtain p names and item :: dirent where
      n: "length names \<le> maxRecursionDepth cfg"
        "subdir_chain fs startPath names" "entry_of fs (descend startPath names) item"
        "\<not> startsWith (d_name item) ''.''" "sr_name r = d_name item"
        "p = posix_join [descend startPath names, d_name item]"
        "sr_path r = posix_relative cwd (videoDirectory cfg) p"
      by blast
    let ?ns = "names @ [d_name item]"
    have "?ns \<noteq> [] \<and> last ?ns = sr_name r \<and> length ?ns \<le> maxRecursionDepth cfg + 1
          \<and> visible ?ns \<and> (\<forall>n\<in>set ?ns. plain n)
          \<and> sr_path r = posix_relative cwd (videoDirectory cfg)
                          (''/'' @ join_with ''/'' (ssegs @ ?ns))"
      using n(1,5,6,7) fil [OF n(2,3,4)] by simp
    then show ?thesis by blast
  qed
  from a b show ?thesis by blast
qed

text \<open>The loop over the entries only ever appends to \<open>results\<close>, too.\<close>

lemma searchItems_results_grow:
  "\<exists>more. results (searchItems cfg cwd fs lq mr dirPath depth items st) = results st @ more"
proof (induction items arbitrary: st)
  case Nil
  then show ?case by simp
next
  case (Cons item items)
  show ?case
  proof (cases "startsWith (d_name item) ''.''")
    case True
    then show ?thesis using Cons.IH [of st] by simp
  next
    case nh: False
    show ?thesis
    proof (cases "d_kind item = DirectoryEntry")
      case True
      let ?st' = "searchDir cfg cwd fs lq mr (posix_join [dirPath, d_name item]) (depth + 1) st"
      obtain m1 where m1: "results ?st' = results st @ m1"
        using search_results_grow [of cfg cwd fs lq mr _ _ st] by blast
      obtain m2 where
        "results (searchItems cfg cwd fs lq mr dirPath depth items ?st') = results ?st' @ m2"
        using Cons.IH [of ?st'] by blast
      then show ?thesis using nh True m1 by simp
    next
      case nd: False
      show ?thesis
      proof (cases "d_kind item = FileEntry \<and> str_includes (toLowerCase (d_name item)) lq")
        case True
        show ?thesis
        proof (cases "fs_stat fs (posix_join [dirPath, d_name item])")
          case None
          then show ?thesis using nh nd True by (simp add: isMediaFile_def)
        next
          case (Some s)
          let ?st' = "st\<lparr>results := results st @
                  [\<lparr>sr_name = d_name item,
                    sr_path = posix_relative cwd (videoDirectory cfg)
                                (posix_join [dirPath, d_name item]),
                    sr_folder = folder_of (posix_relative cwd (videoDirectory cfg)
                                            (posix_join [dirPath, d_name item])),
                    sr_type = getFileType cfg (d_name item),
                    sr_size = st_size s, sr_modified = st_mtime s\<rparr>],
                calls := calls st @ [StatCall (posix_join [dirPath, d_name item])]\<rparr>"
          obtain m where
            "results (searchItems cfg cwd fs lq mr dirPath depth items ?st') = results ?st' @ m"
            using Cons.IH [of ?st'] by blast
          then show ?thesis using nh nd True Some by (simp add: isMediaFile_def)
        qed
      next
        case False
        then show ?thesis using nh nd Cons.IH [of st] by (auto simp: isMediaFile_def)
      qed
    qed
  qed
qed

text \<open>A matching file entry of a directory is pushed whatever happens in the
  sub-directories of that directory, as long as the \<open>stat\<close> calls on the matching files
  of the directory itself succeed.\<close>

lemma searchItems_direct_matches:
  assumes "\<forall>i\<in>set items. matches lq i \<longrightarrow> fs_stat fs (posix_join [dirPath, d_name i]) \<noteq> None"
  shows "\<forall>i\<in>set items. matches lq i \<longrightarrow>
           d_name i \<in> sr_name ` set (results (searchItems cfg cwd fs lq mr dirPath depth items st))"
  using assms
proof (induction items arbitrary: st)
  case Nil
  then show ?case by simp
next
  case (Cons item items)
  have tl: "\<forall>i\<in>set items. matches lq i \<longrightarrow> fs_stat fs (posix_join [dirPath, d_name i]) \<noteq> None"
    using Cons.prems by simp
  have "\<exists>st'. searchItems cfg cwd fs lq mr dirPath depth (item # items) st
                = searchItems cfg cwd fs lq mr dirPath depth items st'
              \<and> (matches lq item \<longrightarrow> d_name item \<in> sr_name ` set (results st'))"
  proof (cases "matches lq item")
    case True
    then obtain s where s: "fs_stat fs (posix_join [dirPath, d_name item]) = Some s"
      using Cons.prems by auto
    let ?st' = "st\<lparr>results := results st @
                  [\<lparr>sr_name = d_name item,
                    sr_path = posix_relative cwd (videoDirectory cfg)
                                (posix_join [dirPath, d_name item]),
                    sr_folder = folder_of (posix_relative cwd (videoDirectory cfg)
                                            (posix_join [dirPath, d_name item])),
                    sr_type = getFileType cfg (d_name item),
                    sr_size = st_size s, sr_modified = st_mtime s\<rparr>],
                calls := calls st @ [StatCall (posix_join [dirPath, d_name item])]\<rparr>"
    have "searchItems cfg cwd fs lq mr dirPath depth (item # items) st
          = searchItems cfg cwd fs lq mr dirPath depth items ?st'"
      using True s by (simp add: matches_def)
    moreover have "d_name item \<in> sr_name ` set (results ?st')" by simp
    ultimately show ?thesis by blast
  next
    case False
    then have "searchItems cfg cwd fs lq mr dirPath depth (item # items) st
               = searchItems cfg cwd fs lq mr dirPath depth items st
             \<or> searchItems cfg cwd fs lq mr dirPath depth (item # items) st
               = searchItems cfg cwd fs lq mr dirPath depth items
                   (searchDir cfg cwd fs lq mr (posix_join [dirPath, d_name item]) (depth + 1) st)"
      by (auto simp: matches_def)
    then show ?thesis using False by blast
  qed
  then obtain st' where st':
    "searchItems cfg cwd fs lq mr dirPath depth (item # items) st
       = searchItems cfg cwd fs lq mr dirPath depth items st'"
    "matches lq item \<longrightarrow> d_name item \<in> sr_name ` set (results st')"
    by blast
  obtain m where m: "results (searchItems cfg cwd fs lq mr dirPath depth items st') = results st' @ m"
    using searchItems_results_grow by blast
  have hd: "matches lq item \<longrightarrow>
            d_name item \<in> sr_name ` set (results (searchItems cfg cwd fs lq mr dirPath depth items st'))"
    using st'(2) m by auto
  have "\<forall>i\<in>set items. matches lq i \<longrightarrow>
          d_name i \<in> sr_name ` set (results (searchItems cfg cwd fs lq mr dirPath depth items st'))"
    by (rule Cons.IH [OF tl])
  then show ?case using hd st'(1) by auto
qed

text \<open>At the deepest level the cap allows, the sub-directories are not read and the loop
  goes on: what the search returns from this directory is its matching file entries, in
  the order of \<open>readdir\<close>.\<close>

lemma searchItems_at_cap:
  assumes "depth = maxRecursionDepth cfg"
    and "\<forall>i\<in>set items. matches lq i \<longrightarrow> fs_stat fs (posix_join [dirPath, d_name i]) \<noteq> None"
  shows "map sr_name (results (searchItems cfg cwd fs lq mr dirPath depth items st))
           = map sr_name (results st) @ map d_name (filter (matches lq) items)
         \<and> map sr_path (results (searchItems cfg cwd fs lq mr dirPath depth items st))
           = map sr_path (results st)
             @ map (\<lambda>i. posix_relative cwd (videoDirectory cfg) (posix_join [dirPath, d_name i]))
                 (filter (matches lq) items)
         \<and> calls (searchItems cfg cwd fs lq mr dirPath depth items st)
           = calls st @ map (\<lambda>i. StatCall (posix_join [dirPath, d_name i])) (filter (matches lq) items)"
  using assms(2)
proof (induction items arbitrary: st)
  case Nil
  then show ?case by simp
next
  case (Cons item items)
  have tl: "\<forall>i\<in>set items. matches lq i \<longrightarrow> fs_stat fs (posix_join [dirPath, d_name i]) \<noteq> None"
    using Cons.prems by simp
  note IH = Cons.IH [OF tl]
  show ?case
  proof (cases "matches lq item")
    case True
    then obtain s where s: "fs_stat fs (posix_join [dirPath, d_name item]) = Some s"
      using Cons.prems by auto
    then show ?thesis using True IH by (simp add: matches_def)
  next
    case False
    have sk: "searchDir cfg cwd fs lq mr (posix_join [dirPath, d_name item]) (depth + 1) st = st"
      using assms(1) by (simp add: searchDir.simps)
    have "searchItems cfg cwd fs lq mr dirPath depth (item # items) st
          = searchItems cfg cwd fs lq mr dirPath depth items st"
      using False sk by (auto simp: matches_def)
    then show ?thesis using False IH [of st] by simp
  qed
qed

lemma searchDir_at_cap:
  assumes "length (results st) < mr" and "fs_readdir fs dirPath = Some items"
    and "\<forall>i\<in>set items. matches lq i \<longrightarrow> fs_stat fs (posix_join [dirPath, d_name i]) \<noteq> None"
  shows "map sr_name (results (searchDir cfg cwd fs lq mr dirPath (maxRecursionDepth cfg) st))
           = map sr_name (results st) @ map d_name (filter (matches lq) items)
         \<and> map sr_path (results (searchDir cfg cwd fs lq mr dirPath (maxRecursionDepth cfg) st))
           = map sr_path (results st)
             @ map (\<lambda>i. posix_relative cwd (videoDirectory cfg) (posix_join [dirPath, d_name i]))
                 (filter (matches lq) items)
         \<and> calls (searchDir cfg cwd fs lq mr dirPath (maxRecursionDepth cfg) st)
           = calls st @ ReaddirCall dirPath (maxRecursionDepth cfg)
               # map (\<lambda>i. StatCall (posix_join [dirPath, d_name i])) (filter (matches lq) items)"
proof -
  have "searchDir cfg cwd fs lq mr dirPath (maxRecursionDepth cfg) st
        = searchItems cfg cwd fs lq mr dirPath (maxRecursionDepth cfg) items
            (st\<lparr>calls := calls st @ [ReaddirCall dirPath (maxRecursionDepth cfg)]\<rparr>)"
    using assms(1,2) by (simp add: searchDir.simps)
  then show ?thesis
    using searchItems_at_cap [OF refl assms(3), of cfg cwd mr
            "st\<lparr>calls := calls st @ [ReaddirCall dirPath (maxRecursionDepth cfg)]\<rparr>"]
    by simp
qed

lemma search_direct_matches:
  assumes "0 < maxResults" and "fs_readdir fs startPath = Some items"
    and "\<forall>i\<in>set items. matches (toLowerCase query) i \<longrightarrow>
            fs_stat fs (posix_join [startPath, d_name i]) \<noteq> None"
  shows "\<forall>i\<in>set items. matches (toLowerCase query) i \<longrightarrow>
           d_name i \<in> sr_name ` set (searchVideosRecursive cfg cwd fs startPath query maxResults)"
proof -
  have "searchVideosRecursive cfg cwd fs startPath query maxResults
        = results (searchItems cfg cwd fs (toLowerCase query) maxResults startPath 0 items
            \<lparr>results = [], calls = [ReaddirCall startPath 0]\<rparr>)"
    using assms(1,2)
    by (simp add: searchVideosRecursive_def search_run_def searchDir.simps)
  then show ?thesis using searchItems_direct_matches [OF assms(3)] by simp
qed

text \<open>
  C7. \<open>searchDir\<close> is a total function: its termination was proved above from the depth
  cap alone, for every file system, also one in which directories nest without end.
  Every \<open>readdir\<close> the search makes carries a depth \<open>d\<close> of at most
  \<open>maxRecursionDepth\<close>, and its directory is reached from the start through a chain of
  exactly \<open>d\<close> directory entries, each one a (not hidden) entry that \<open>readdir\<close> returns
  for the directory before it. When the entry names are single path segments and the start
  is a normalised absolute path, that directory lies exactly \<open>d\<close> segments below the
  start. Beyond the cap \<open>searchDir\<close> returns the state as it is, and it never removes a
  result already found. Hitting the cap is no failure and loses nothing above it. A
  directory entered at the deepest level allowed, with fewer than \<open>maxResults\<close> results
  so far, whose \<open>readdir\<close> succeeds and whose matching files can be \<open>stat\<close>ed: its
  sub-directories are passed over and its matching files are returned, in order. At every
  cap, with \<open>maxResults\<close> not 0, the matching files that lie directly in the start
  directory are returned (when the start directory can be read and \<open>stat\<close> succeeds on
  them). With \<open>maxRecursionDepth = 0\<close> the only \<open>readdir\<close> is that of the start
  directory, every \<open>stat\<close> is on a file entry of the start directory, and under the
  same provisos the result is the list of the matching file entries of the start directory.
\<close>

theorem search_depth_bounded:
  "(\<forall>c\<in>set (calls (search_run cfg cwd fs startPath query maxResults)).
      \<forall>p d. c = ReaddirCall p d \<longrightarrow>
        d \<le> maxRecursionDepth cfg
        \<and> (\<exists>names. length names = d \<and> subdir_chain fs startPath names
              \<and> p = descend startPath names))
   \<and> ((\<forall>p (item :: dirent). entry_of fs p item \<longrightarrow> plain (d_name item))
        \<and> startPath = ''/'' @ join_with ''/'' ssegs \<and> (\<forall>s\<in>set ssegs. plain s) \<longrightarrow>
      (\<forall>c\<in>set (calls (search_run cfg cwd fs startPath query maxResults)).
         \<forall>p d. c = ReaddirCall p d \<longrightarrow>
           d \<le> maxRecursionDepth cfg
           \<and> (\<exists>names. length names = d \<and> (\<forall>n\<in>set names. plain n)
                 \<and> p = ''/'' @ join_with ''/'' (ssegs @ names))))
   \<and> (maxRecursionDepth cfg < depth \<longrightarrow> searchDir cfg cwd fs lq mr dirPath depth st = st)
   \<and> (\<exists>more. results (searchDir cfg cwd fs lq mr dirPath depth st) = results st @ more)
   \<and> (length (results st) < mr \<and> fs_readdir fs dirPath = Some items
        \<and> (\<forall>i\<in>set items. matches lq i \<longrightarrow> fs_stat fs (posix_join [dirPath, d_name i]) \<noteq> None) \<longrightarrow>
      map sr_name (results (searchDir cfg cwd fs lq mr dirPath (maxRecursionDepth cfg) st))
        = map sr_name (results st) @ map d_name (filter (matches lq) items)
      \<and> map sr_path (results (searchDir cfg cwd fs lq mr dirPath (maxRecursionDepth cfg) st))
        = map sr_path (results st)
          @ map (\<lambda>i. posix_relative cwd (videoDirectory cfg) (posix_join [dirPath, d_name i]))
              (filter (matches lq) items)
      \<and> calls (searchDir cfg cwd fs lq mr dirPath (maxRecursionDepth cfg) st)
        = calls st @ ReaddirCall dirPath (maxRecursionDepth cfg)
            # map (\<lambda>i. StatCall (posix_join [dirPath, d_name i])) (filter (matches lq) items))
   \<and> (0 < maxResults \<and> fs_readdir fs startPath = Some entries
        \<and> (\<forall>i\<in>set entries. matches (toLowerCase query) i \<longrightarrow>
              fs_stat fs (posix_join [startPath, d_name i]) \<noteq> None) \<longrightarrow>
      (\<forall>i\<in>set entries. matches (toLowerCase query) i \<longrightarrow>
         d_name i \<in> sr_name ` set (searchVideosRecursive cfg cwd fs startPath query maxResults))
      \<and> (maxRecursionDepth cfg = 0 \<longrightarrow>
           map sr_name (searchVideosRecursive cfg cwd fs startPath query maxResults)
             = map d_name (filter (matches (toLowerCase query)) entries)
           \<and> calls (search_run cfg cwd fs startPath query maxResults)
             = ReaddirCall startPath 0
                 # map (\<lambda>i. StatCall (posix_join [startPath, d_name i]))
                     (filter (matches (toLowerCase query)) entries)))
   \<and> (maxRecursionDepth cfg = 0 \<longrightarrow>
        (\<forall>c\<in>set (calls (search_run cfg cwd fs startPath query maxResults)).
           c = ReaddirCall startPath 0
           \<or> (\<exists>item. entry_of fs startPath item \<and> d_kind item = FileEntry
                \<and> \<not> startsWith (d_name item) ''.''
                \<and> c = StatCall (posix_join [startPath, d_name item]))))"
proof -
  note tr = search_trace [of cfg cwd fs startPath query maxResults, THEN conjunct1, rule_format]
  have a: "d \<le> maxRecursionDepth cfg
           \<and> (\<exists>names. length names = d \<and> subdir_chain fs startPath names
                 \<and> p = descend startPath names)"
    if "c \<in> set (calls (search_run cfg cwd fs startPath query maxResults))" "c = ReaddirCall p d"
    for c p d
    using tr [OF that(1)] that(2) by auto
  have a': "d \<le> maxRecursionDepth cfg
            \<and> (\<exists>names. length names = d \<and> (\<forall>n\<in>set names. plain n)
                  \<and> p = ''/'' @ join_with ''/'' (ssegs @ names))"
    if wf: "\<forall>p (item :: dirent). entry_of fs p item \<longrightarrow> plain (d_name item)"
      and s: "startPath = ''/'' @ join_with ''/'' ssegs" "\<forall>s\<in>set ssegs. plain s"
      and cin: "c \<in> set (calls (search_run cfg cwd fs startPath query maxResults))"
      and c: "c = ReaddirCall p d"
    for c p d
    using search_trace_segments
            [where cfg = cfg and cwd = cwd and query = query and maxResults = maxResults,
             OF wf s, THEN conjunct1, rule_format, OF cin] c
    by auto
  have b: "searchDir cfg cwd fs lq mr dirPath depth st = st" if "maxRecursionDepth cfg < depth"
    using that by (simp add: searchDir.simps)
  have c: "\<exists>more. results (searchDir cfg cwd fs lq mr dirPath depth st) = results st @ more"
    by (rule search_results_grow)
  have e: "map sr_name (results (searchDir cfg cwd fs lq mr dirPath (maxRecursionDepth cfg) st))
             = map sr_name (results st) @ map d_name (filter (matches lq) items)
           \<and> map sr_path (results (searchDir cfg cwd fs lq mr dirPath (maxRecursionDepth cfg) st))
             = map sr_path (results st)
               @ map (\<lambda>i. posix_relative cwd (videoDirectory cfg) (posix_join [dirPath, d_name i]))
                   (filter (matches lq) items)
           \<and> calls (searchDir cfg cwd fs lq mr dirPath (maxRecursionDepth cfg) st)
             = calls st @ ReaddirCall dirPath (maxRecursionDepth cfg)
                 # map (\<lambda>i. StatCall (posix_join [dirPath, d_name i])) (filter (matches lq) items)"
    if "length (results st) < mr" "fs_readdir fs dirPath = Some items"
      "\<forall>i\<in>set items. matches lq i \<longrightarrow> fs_stat fs (posix_join [dirPath, d_name i]) \<noteq> None"
    by (rule searchDir_at_cap [OF that])
  have f: "\<forall>i\<in>set entries. matches (toLowerCase query) i \<longrightarrow>
             d_name i \<in> sr_name ` set (searchVideosRecursive cfg cwd fs startPath query maxResults)"
    if "0 < maxResults" "fs_readdir fs startPath = Some entries"
      "\<forall>i\<in>set entries. matches (toLowerCase query) i \<longrightarrow>
          fs_stat fs (posix_join [startPath, d_name i]) \<noteq> None"
    by (rule search_direct_matches [OF that])
  have g: "map sr_name (searchVideosRecursive cfg cwd fs startPath query maxResults)
             = map d_name (filter (matches (toLowerCase query)) entries)
           \<and> calls (search_run cfg cwd fs startPath query maxResults)
             = ReaddirCall startPath 0
                 # map (\<lambda>i. StatCall (posix_join [startPath, d_name i]))
                     (filter (matches (toLowerCase query)) entries)"
    if "0 < maxResults" "fs_readdir fs startPath = Some entries"
      "\<forall>i\<in>set entries. matches (toLowerCase query) i \<longrightarrow>
          fs_stat fs (posix_join [startPath, d_name i]) \<noteq> None"
      and z: "maxRecursionDepth cfg = 0"
  proof -
    have "length (results \<lparr>results = [], calls = []\<rparr>) < maxResults" using that(1) by simp
    from searchDir_at_cap [where cfg = cfg and cwd = cwd, OF this that(2,3)] show ?thesis
      by (simp add: searchVideosRecursive_def search_run_def z)
  qed
  have h: "c = ReaddirCall startPath 0
           \<or> (\<exists>item. entry_of fs startPath item \<and> d_kind item = FileEntry
                \<and> \<not> startsWith (d_name item) ''.''
                \<and> c = StatCall (posix_join [startPath, d_name item]))"
    if z: "maxRecursionDepth cfg = 0"
      and "c \<in> set (calls (search_run cfg cwd fs startPath query maxResults))" for c
  proof (cases c)
    case (ReaddirCall p d)
    then show ?thesis using tr [OF that(2)] z by (auto simp: descend_def)
  next
    case (StatCall p)
    then show ?thesis using tr [OF that(2)] z by (auto simp: descend_def)
  qed
  show ?thesis
  proof (intro conjI impI ballI allI)
    fix c p d
    assume "c \<in> set (calls (search_run cfg cwd fs startPath query maxResults))" "c = ReaddirCall p d"
    from a [OF this]
    show "d \<le> maxRecursionDepth cfg"
      and "\<exists>names. length names = d \<and> subdir_chain fs startPath names \<and> p = descend startPath names"
      by simp_all
  next
    fix c p d
    assume "(\<forall>p (item :: dirent). entry_of fs p item \<longrightarrow> plain (d_name item))
            \<and> startPath = ''/'' @ join_with ''/'' ssegs \<and> (\<forall>s\<in>set ssegs. plain s)"
      and "c \<in> set (calls (search_run cfg cwd fs startPath query maxResults))" "c = ReaddirCall p d"
    then have "d \<le> maxRecursionDepth cfg
            \<and> (\<exists>names. length names = d \<and> (\<forall>n\<in>set names. plain n)
                  \<and> p = ''/'' @ join_with ''/'' (ssegs @ names))"
      using a' [of c p d] by blast
    then show "d \<le> maxRecursionDepth cfg"
      and "\<exists>names. length names = d \<and> (\<forall>n\<in>set names. plain n)
                  \<and> p = ''/'' @ join_with ''/'' (ssegs @ names)"
      by simp_all
  next
    assume "maxRecursionDepth cfg < depth"
    then show "searchDir cfg cwd fs lq mr dirPath depth st = st" by (rule b)
  next
    show "\<exists>more. results (searchDir cfg cwd fs lq mr dirPath depth st) = results st @ more"
      by (rule c)
  next
    assume p: "length (results st) < mr \<and> fs_readdir fs dirPath = Some items
        \<and> (\<forall>i\<in>set items. matches lq i \<longrightarrow> fs_stat fs (posix_join [dirPath, d_name i]) \<noteq> None)"
    from e p
    show "map sr_name (results (searchDir cfg cwd fs lq mr dirPath (maxRecursionDepth cfg) st))
             = map sr_name (results st) @ map d_name (filter (matches lq) items)"
      and "map sr_path (results (searchDir cfg cwd fs lq mr dirPath (maxRecursionDepth cfg) st))
             = map sr_path (results st)
               @ map (\<lambda>i. posix_relative cwd (videoDirectory cfg) (posix_join [dirPath, d_name i]))
                   (filter (matches lq) items)"
      and "calls (searchDir cfg cwd fs lq mr dirPath (maxRecursionDepth cfg) st)
             = calls st @ ReaddirCall dirPath (maxRecursionDepth cfg)
                 # map (\<lambda>i. StatCall (posix_join [dirPath, d_name i])) (filter (matches lq) items)"
      by blast+
  next
    fix i
    assume p: "0 < maxResults \<and> fs_readdir fs startPath = Some entries
        \<and> (\<forall>i\<in>set entries. matches (toLowerCase query) i \<longrightarrow>
              fs_stat fs (posix_join [startPath, d_name i]) \<noteq> None)"
      and "i \<in> set entries" "matches (toLowerCase query) i"
    then show "d_name i \<in> sr_name ` set (searchVideosRecursive cfg cwd fs startPath query maxResults)"
      using f by blast
  next
    assume p: "0 < maxResults \<and> fs_readdir fs startPath = Some entries
        \<and> (\<forall>i\<in>set entries. matches (toLowerCase query) i \<longrightarrow>
              fs_stat fs (posix_join [startPath, d_name i]) \<noteq> None)"
      and z: "maxRecursionDepth cfg = 0"
    from g p z
    show "map sr_name (searchVideosRecursive cfg cwd fs startPath query maxResults)
             = map d_name (filter (matches (toLowerCase query)) entries)"
      and "calls (search_run cfg cwd fs startPath query maxResults)
             = ReaddirCall startPath 0
                 # map (\<lambda>i. StatCall (posix_join [startPath, d_name i]))
                     (filter (matches (toLowerCase query)) entries)"
      by blast+
  next
    fix c
    assume "maxRecursionDepth cfg = 0"
      and "c \<in> set (calls (search_run cfg cwd fs startPath query maxResults))"
    then show "c = ReaddirCall startPath 0
           \<or> (\<exists>item. entry_of fs startPath item \<and> d_kind item = FileEntry
                \<and> \<not> startsWith (d_name item) ''.''
                \<and> c = StatCall (posix_join [startPath, d_name item]))"
      by (rule h)
  qed
qed

lemma shelf_paths:
  "posix_join [''/lib'', ''top.mp4''] = ''/lib/top.mp4''"
  "posix_join [''/lib/movies'', ''old''] = ''/lib/movies/old''"
  "posix_join [''/lib/movies/old'', ''c.mp4''] = ''/lib/movies/old/c.mp4''"
  "str_includes (toLowerCase ''top.mp4'') (toLowerCase ''mp4'')"
  "str_includes (toLowerCase ''c.mp4'') (toLowerCase ''mp4'')"
  "toLowerCase ''mp4'' = ''mp4''"
  by code_simp+

lemma shelf_entries_plain: "\<forall>p (item :: dirent). entry_of shelf_fs p item \<longrightarrow> plain (d_name item)"
  by (auto simp: entry_of_def shelf_fs_def plain_def path_sep_def split: if_splits)

text \<open>The search of the three-level tree under a cap of 1: \<open>top.mp4\<close> and \<open>a.mp4\<close> are
  found, \<open>/lib/movies/old\<close> is not read.\<close>

lemma shelf_search_1:
  "calls (search_run (lib_config\<lparr>maxRecursionDepth := 1\<rparr>) ''/srv'' shelf_fs ''/lib'' ''mp4'' 100)
   = [ReaddirCall ''/lib'' 0, StatCall ''/lib/top.mp4'',
      ReaddirCall ''/lib/movies'' 1, StatCall ''/lib/movies/a.mp4'']"
  "map sr_name (searchVideosRecursive (lib_config\<lparr>maxRecursionDepth := 1\<rparr>) ''/srv'' shelf_fs
                  ''/lib'' ''mp4'' 100)
   = [''top.mp4'', ''a.mp4'']"
  using shelf_paths(1-5) lib_root_paths(1,3) lib_movies_paths(1)
  by (simp_all add: searchVideosRecursive_def search_run_def searchDir.simps shelf_fs_def
        startsWith_def isMediaFile_def)

lemma shelf_search_0:
  "calls (search_run (lib_config\<lparr>maxRecursionDepth := 0\<rparr>) ''/srv'' shelf_fs ''/lib'' ''mp4'' 100)
   = [ReaddirCall ''/lib'' 0, StatCall ''/lib/top.mp4'']"
  using shelf_paths(1-5) lib_root_paths(1,3) lib_movies_paths(1)
  by (simp add: search_run_def searchDir.simps shelf_fs_def startsWith_def isMediaFile_def)

theorem search_depth_bounded_witness:
  "calls (search_run (lib_config\<lparr>maxRecursionDepth := 1\<rparr>) ''/srv'' shelf_fs ''/lib'' ''mp4'' 100)
     = [ReaddirCall ''/lib'' 0, StatCall ''/lib/top.mp4'',
        ReaddirCall ''/lib/movies'' 1, StatCall ''/lib/movies/a.mp4'']
   \<and> (\<exists>names. length names = 1 \<and> subdir_chain shelf_fs ''/lib'' names
         \<and> ''/lib/movies'' = descend ''/lib'' names)
   \<and> (\<exists>names. length names = 1 \<and> ''/lib/movies'' = ''/'' @ join_with ''/'' ([''lib''] @ names))
   \<and> searchDir (lib_config\<lparr>maxRecursionDepth := 1\<rparr>) ''/srv'' shelf_fs ''mp4'' 100
        ''/lib/movies'' 2 \<lparr>results = [], calls = []\<rparr>
      = \<lparr>results = [], calls = []\<rparr>
   \<and> map sr_name (results (searchDir (lib_config\<lparr>maxRecursionDepth := 1\<rparr>) ''/srv'' shelf_fs
                              ''mp4'' 100 ''/lib/movies'' 1 \<lparr>results = [], calls = []\<rparr>))
      = [''a.mp4'']
   \<and> calls (searchDir (lib_config\<lparr>maxRecursionDepth := 1\<rparr>) ''/srv'' shelf_fs
               ''mp4'' 100 ''/lib/movies'' 1 \<lparr>results = [], calls = []\<rparr>)
      = [ReaddirCall ''/lib/movies'' 1, StatCall ''/lib/movies/a.mp4'']
   \<and> ''top.mp4'' \<in> sr_name ` set (searchVideosRecursive (lib_config\<lparr>maxRecursionDepth := 1\<rparr>)
                                      ''/srv'' shelf_fs ''/lib'' ''mp4'' 100)
   \<and> map sr_name (searchVideosRecursive (lib_config\<lparr>maxRecursionDepth := 1\<rparr>) ''/srv'' shelf_fs
                    ''/lib'' ''mp4'' 100)
      = [''top.mp4'', ''a.mp4'']
   \<and> map sr_name (searchVideosRecursive (lib_config\<lparr>maxRecursionDepth := 0\<rparr>) ''/srv'' shelf_fs
                    ''/lib'' ''mp4'' 100)
      = [''top.mp4'']
   \<and> calls (search_run (lib_config\<lparr>maxRecursionDepth := 0\<rparr>) ''/srv'' shelf_fs ''/lib'' ''mp4'' 100)
      = [ReaddirCall ''/lib'' 0, StatCall ''/lib/top.mp4'']
   \<and> (\<exists>item. entry_of shelf_fs ''/lib'' item \<and> d_kind item = FileEntry
         \<and> StatCall ''/lib/top.mp4'' = StatCall (posix_join [''/lib'', d_name item]))"
proof -
  let ?cfg1 = "lib_config\<lparr>maxRecursionDepth := 1\<rparr>"
  let ?cfg0 = "lib_config\<lparr>maxRecursionDepth := 0\<rparr>"
  let ?st0 = "\<lparr>results = [], calls = []\<rparr> :: search_state"
  let ?root = "[\<lparr>d_name = ''top.mp4'', d_kind = FileEntry\<rparr>,
                \<lparr>d_name = ''movies'', d_kind = DirectoryEntry\<rparr>]"
  let ?movies = "[\<lparr>d_name = ''a.mp4'', d_kind = FileEntry\<rparr>,
                  \<lparr>d_name = ''old'', d_kind = DirectoryEntry\<rparr>]"
  note B = search_depth_bounded
             [where cfg = ?cfg1 and cwd = "''/srv''" and fs = shelf_fs and startPath = "''/lib''"
                and query = "''mp4''" and maxResults = 100 and ssegs = "[''lib'']" and depth = 2
                and lq = "''mp4''" and mr = 100 and dirPath = "''/lib/movies''" and st = ?st0
                and items = ?movies and entries = ?root]
  note A = search_depth_bounded
             [where cfg = ?cfg0 and cwd = "''/srv''" and fs = shelf_fs and startPath = "''/lib''"
                and query = "''mp4''" and maxResults = 100 and ssegs = "[''lib'']" and depth = 1
                and lq = "''mp4''" and mr = 100 and dirPath = "''/lib''" and st = ?st0
                and items = ?root and entries = ?root]
  have cin1: "ReaddirCall ''/lib/movies'' 1
              \<in> set (calls (search_run ?cfg1 ''/srv'' shelf_fs ''/lib'' ''mp4'' 100))"
    using shelf_search_1(1) by simp
  have cin0: "StatCall ''/lib/top.mp4''
              \<in> set (calls (search_run ?cfg0 ''/srv'' shelf_fs ''/lib'' ''mp4'' 100))"
    using shelf_search_0 by simp
  have start: "''/lib'' = ''/'' @ join_with ''/'' [''lib'']" "\<forall>s\<in>set [''lib'']. plain s"
    by (simp_all add: plain_def path_sep_def)
  have rd: "fs_readdir shelf_fs ''/lib'' = Some ?root"
    "fs_readdir shelf_fs ''/lib/movies'' = Some ?movies"
    by (simp_all add: shelf_fs_def)
  have st_root: "\<forall>i\<in>set ?root. matches (toLowerCase ''mp4'') i \<longrightarrow>
                   fs_stat shelf_fs (posix_join [''/lib'', d_name i]) \<noteq> None"
    by (simp add: shelf_fs_def shelf_paths lib_root_paths)
  have st_root': "\<forall>i\<in>set ?root. matches ''mp4'' i \<longrightarrow>
                   fs_stat shelf_fs (posix_join [''/lib'', d_name i]) \<noteq> None"
    by (simp add: shelf_fs_def shelf_paths lib_root_paths)
  have st_movies: "\<forall>i\<in>set ?movies. matches ''mp4'' i \<longrightarrow>
                     fs_stat shelf_fs (posix_join [''/lib/movies'', d_name i]) \<noteq> None"
    by (simp add: shelf_fs_def shelf_paths lib_movies_paths)
  have m_root: "filter (matches (toLowerCase ''mp4'')) ?root = [\<lparr>d_name = ''top.mp4'', d_kind = FileEntry\<rparr>]"
    using shelf_paths(4) by (simp add: matches_def startsWith_def isMediaFile_def)
  have m_movies: "filter (matches ''mp4'') ?movies = [\<lparr>d_name = ''a.mp4'', d_kind = FileEntry\<rparr>]"
    using lib_root_paths(3) shelf_paths(6) by (simp add: matches_def startsWith_def isMediaFile_def)
  have b1: "\<exists>names. length names = 1 \<and> subdir_chain shelf_fs ''/lib'' names
                \<and> ''/lib/movies'' = descend ''/lib'' names"
    using B [THEN conjunct1, rule_format, OF cin1 refl] by blast
  have b2: "\<exists>names. length names = 1 \<and> ''/lib/movies'' = ''/'' @ join_with ''/'' ([''lib''] @ names)"
    using B [THEN conjunct2, THEN conjunct1] shelf_entries_plain start cin1 by blast
  have b3: "searchDir ?cfg1 ''/srv'' shelf_fs ''mp4'' 100 ''/lib/movies'' 2 ?st0 = ?st0"
    using B [THEN conjunct2, THEN conjunct2, THEN conjunct1] by simp
  have b5: "map sr_name (results (searchDir ?cfg1 ''/srv'' shelf_fs ''mp4'' 100 ''/lib/movies'' 1 ?st0))
              = [''a.mp4'']
            \<and> calls (searchDir ?cfg1 ''/srv'' shelf_fs ''mp4'' 100 ''/lib/movies'' 1 ?st0)
              = [ReaddirCall ''/lib/movies'' 1, StatCall ''/lib/movies/a.mp4'']"
    using B [THEN conjunct2, THEN conjunct2, THEN conjunct2, THEN conjunct2, THEN conjunct1]
      rd(2) st_movies m_movies lib_movies_paths(1)
    by simp
  have b6: "''top.mp4'' \<in> sr_name ` set (searchVideosRecursive ?cfg1 ''/srv'' shelf_fs ''/lib'' ''mp4'' 100)"
  proof -
    have i: "\<lparr>d_name = ''top.mp4'', d_kind = FileEntry\<rparr> \<in> set ?root" by simp
    have m: "matches (toLowerCase ''mp4'') \<lparr>d_name = ''top.mp4'', d_kind = FileEntry\<rparr>"
      using shelf_paths(4) by (simp add: matches_def startsWith_def isMediaFile_def)
    have p: "0 < (100 :: nat) \<and> fs_readdir shelf_fs ''/lib'' = Some ?root
             \<and> (\<forall>i\<in>set ?root. matches (toLowerCase ''mp4'') i \<longrightarrow>
                   fs_stat shelf_fs (posix_join [''/lib'', d_name i]) \<noteq> None)"
      using rd(1) st_root by simp
    from B [THEN conjunct2, THEN conjunct2, THEN conjunct2, THEN conjunct2, THEN conjunct2,
            THEN conjunct1, rule_format, OF p, THEN conjunct1, rule_format, OF i m]
    show ?thesis by simp
  qed
  have a6: "map sr_name (searchVideosRecursive ?cfg0 ''/srv'' shelf_fs ''/lib'' ''mp4'' 100)
              = [''top.mp4'']
            \<and> calls (search_run ?cfg0 ''/srv'' shelf_fs ''/lib'' ''mp4'' 100)
              = [ReaddirCall ''/lib'' 0, StatCall ''/lib/top.mp4'']"
  proof -
    have p: "0 < (100 :: nat) \<and> fs_readdir shelf_fs ''/lib'' = Some ?root
             \<and> (\<forall>i\<in>set ?root. matches (toLowerCase ''mp4'') i \<longrightarrow>
                   fs_stat shelf_fs (posix_join [''/lib'', d_name i]) \<noteq> None)"
      using rd(1) st_root by simp
    have z: "maxRecursionDepth ?cfg0 = 0" by simp
    from A [THEN conjunct2, THEN conjunct2, THEN conjunct2, THEN conjunct2, THEN conjunct2,
            THEN conjunct1, rule_format, OF p, THEN conjunct2, rule_format, OF z]
    show ?thesis using m_root shelf_paths(1) by simp
  qed
  have a7: "\<exists>item. entry_of shelf_fs ''/lib'' item \<and> d_kind item = FileEntry
              \<and> StatCall ''/lib/top.mp4'' = StatCall (posix_join [''/lib'', d_name item])"
  proof -
    have z: "maxRecursionDepth ?cfg0 = 0" by simp
    from A [THEN conjunct2, THEN conjunct2, THEN conjunct2, THEN conjunct2, THEN conjunct2,
            THEN conjunct2, rule_format, OF z cin0]
    show ?thesis by auto
  qed
  from shelf_search_1 b1 b2 b3 b5 b6 a6 a7 show ?thesis by simp
qed

section \<open>Hidden entries\<close>

lemma list_items_entries:
  assumes "list_items cfg cwd fs dirPath items folders files = Inr (Listing fo fi)"
    and "\<forall>i\<in>set items. entry_of fs dirPath i"
    and "\<forall>e\<in>set folders. F e" and "\<forall>e\<in>set files. G e"
    and "\<And>item. entry_of fs dirPath item \<Longrightarrow> \<not> startsWith (d_name item) ''.'' \<Longrightarrow>
           d_kind item = DirectoryEntry \<Longrightarrow>
           F \<lparr>fo_name = d_name item,
              fo_path = posix_relative cwd (videoDirectory cfg) (posix_join [dirPath, d_name item])\<rparr>"
    and "\<And>item st. entry_of fs dirPath item \<Longrightarrow> \<not> startsWith (d_name item) ''.'' \<Longrightarrow>
           d_kind item = FileEntry \<Longrightarrow> fs_stat fs (posix_join [dirPath, d_name item]) = Some st \<Longrightarrow>
           G \<lparr>fi_name = d_name item,
              fi_path = posix_relative cwd (videoDirectory cfg) (posix_join [dirPath, d_name item]),
              fi_type = getFileType cfg (d_name item),
              fi_size = st_size st, fi_modified = st_mtime st\<rparr>"
  shows "(\<forall>e\<in>set fo. F e) \<and> (\<forall>e\<in>set fi. G e)"
  using assms(1-4)
proof (induction items arbitrary: folders files)
  case Nil
  then show ?case by simp
next
  case (Cons item items)
  have eni: "entry_of fs dirPath item" and ens: "\<forall>i\<in>set items. entry_of fs dirPath i"
    using Cons.prems(2) by simp_all
  show ?case
  proof (cases "startsWith (d_name item) ''.''")
    case True
    then have "list_items cfg cwd fs dirPath items folders files = Inr (Listing fo fi)"
      using Cons.prems(1) by (simp add: Let_def)
    then show ?thesis using Cons.IH ens Cons.prems(3,4) by blast
  next
    case nh: False
    show ?thesis
    proof (cases "d_kind item = DirectoryEntry")
      case True
      let ?e = "\<lparr>fo_name = d_name item,
                 fo_path = posix_relative cwd (videoDirectory cfg) (posix_join [dirPath, d_name item])\<rparr>"
      have "list_items cfg cwd fs dirPath items (folders @ [?e]) files = Inr (Listing fo fi)"
        using Cons.prems(1) nh True by (simp add: Let_def)
      moreover have "\<forall>e\<in>set (folders @ [?e]). F e"
        using Cons.prems(3) assms(5) [OF eni nh True] by simp
      ultimately show ?thesis using Cons.IH ens Cons.prems(4) by blast
    next
      case nd: False
      show ?thesis
      proof (cases "d_kind item = FileEntry")
        case True
        show ?thesis
        proof (cases "fs_stat fs (posix_join [dirPath, d_name item])")
          case None
          then show ?thesis using Cons.prems(1) nh nd True by (simp add: Let_def isMediaFile_def)
        next
          case (Some st)
          let ?e = "\<lparr>fi_name = d_name item,
                     fi_path = posix_relative cwd (videoDirectory cfg) (posix_join [dirPath, d_name item]),
                     fi_type = getFileType cfg (d_name item),
                     fi_size = st_size st, fi_modified = st_mtime st\<rparr>"
          have "list_items cfg cwd fs dirPath items folders (files @ [?e]) = Inr (Listing fo fi)"
            using Cons.prems(1) nh nd True Some by (simp add: Let_def isMediaFile_def)
          moreover have "\<forall>e\<in>set (files @ [?e]). G e"
            using Cons.prems(4) assms(6) [OF eni nh True Some] by simp
          ultimately show ?thesis using Cons.IH ens Cons.prems(3) by blast
        qed
      next
        case False
        then have "list_items cfg cwd fs dirPath items folders files = Inr (Listing fo fi)"
          using Cons.prems(1) nh nd by (simp add: Let_def)
        then show ?thesis using Cons.IH ens Cons.prems(3,4) by blast
      qed
    qed
  qed
qed

text \<open>Every folder and file of a listing is an entry of the listed directory whose name
  has no leading dot.\<close>

lemma listing_entries_visible:
  assumes "readDirectoryRecursive cfg cwd fs dirPath depth = Inr (Listing folders files)"
  shows "(\<forall>e\<in>set folders. \<not> startsWith (fo_name e) ''.''
            \<and> (\<exists>item. entry_of fs dirPath item \<and> d_kind item = DirectoryEntry \<and> d_name item = fo_name e))
         \<and> (\<forall>e\<in>set files. \<not> startsWith (fi_name e) ''.''
            \<and> (\<exists>item. entry_of fs dirPath item \<and> d_kind item = FileEntry \<and> d_name item = fi_name e))"
proof -
  obtain items where rd: "fs_readdir fs dirPath = Some items"
    and li: "list_items cfg cwd fs dirPath items [] [] = Inr (Listing folders files)"
    using assms
    by (auto simp: readDirectoryRecursive_def split: if_splits option.splits sum.splits)
  have en: "\<forall>i\<in>set items. entry_of fs dirPath i" using rd by (simp add: entry_of_def)
  show ?thesis
    by (rule list_items_entries [OF li en]) auto
qed

lemma lib_hidden_paths:
  "posix_join [''/lib/.hidden'', ''b.mp4''] = ''/lib/.hidden/b.mp4''"
  "posix_relative ''/srv'' ''/lib'' ''/lib/.hidden/b.mp4'' = ''.hidden/b.mp4''"
  "posix_relative ''/srv'' ''/lib'' ''/lib/movies'' = ''movies''"
  "getFileType lib_config ''b.mp4'' = ''video''"
  "str_includes (toLowerCase ''b.mp4'') (toLowerCase ''mp4'')"
  "folder_of ''.hidden/b.mp4'' = ''.hidden''"
  by code_simp+

text \<open>
  C8, counterexample. \<open>.hidden\<close> is an entry of \<open>/lib\<close> whose name starts with a dot, and
  \<open>/api/browse?path=.hidden\<close> is served: \<open>sanitizePath\<close> accepts the path, and the
  listing of \<open>/lib/.hidden\<close> returns its descendant \<open>b.mp4\<close>, with the hidden name in
  its path. A search started there returns it as well.
\<close>

theorem hidden_descendant_counterexample:
  "entry_of lib_fs ''/lib'' \<lparr>d_name = ''.hidden'', d_kind = DirectoryEntry\<rparr>
   \<and> startsWith ''.hidden'' ''.''
   \<and> sanitizePath lib_config ''/srv'' ''.hidden'' = Inr ''/lib/.hidden''
   \<and> readDirectoryRecursive lib_config ''/srv'' lib_fs ''/lib/.hidden'' 0
       = Inr (Listing [] [\<lparr>fi_name = ''b.mp4'', fi_path = ''.hidden/b.mp4'', fi_type = ''video'',
                           fi_size = 1000, fi_modified = 0\<rparr>])
   \<and> searchVideosRecursive lib_config ''/srv'' lib_fs ''/lib/.hidden'' ''mp4'' 100
       = [\<lparr>sr_name = ''b.mp4'', sr_path = ''.hidden/b.mp4'', sr_folder = ''.hidden'',
           sr_type = ''video'', sr_size = 1000, sr_modified = 0\<rparr>]"
proof -
  have v: "videoDirectory lib_config = ''/lib''" "maxRecursionDepth lib_config = 10"
    by (simp_all add: lib_config_def)
  have e: "entry_of lib_fs ''/lib'' \<lparr>d_name = ''.hidden'', d_kind = DirectoryEntry\<rparr>"
    by (simp add: entry_of_def lib_fs_def)
  have s: "sanitizePath lib_config ''/srv'' ''.hidden'' = Inr ''/lib/.hidden''" by code_simp
  have l: "readDirectoryRecursive lib_config ''/srv'' lib_fs ''/lib/.hidden'' 0
           = Inr (Listing [] [\<lparr>fi_name = ''b.mp4'', fi_path = ''.hidden/b.mp4'', fi_type = ''video'',
                               fi_size = 1000, fi_modified = 0\<rparr>])"
    by (simp add: readDirectoryRecursive_def lib_fs_def Let_def startsWith_def isMediaFile_def
          lib_hidden_paths v file_stats_def)
  have r: "searchVideosRecursive lib_config ''/srv'' lib_fs ''/lib/.hidden'' ''mp4'' 100
           = [\<lparr>sr_name = ''b.mp4'', sr_path = ''.hidden/b.mp4'', sr_folder = ''.hidden'',
               sr_type = ''video'', sr_size = 1000, sr_modified = 0\<rparr>]"
    by (simp add: searchVideosRecursive_def search_run_def searchDir.simps lib_fs_def
          startsWith_def isMediaFile_def lib_hidden_paths v file_stats_def)
  from e s l r show ?thesis by (simp add: startsWith_def)
qed

lemma lib_root_listing:
  "readDirectoryRecursive lib_config ''/srv'' lib_fs ''/lib'' 0
   = Inr (Listing [\<lparr>fo_name = ''movies'', fo_path = ''movies''\<rparr>] [])"
proof -
  have v: "videoDirectory lib_config = ''/lib''" by (simp add: lib_config_def)
  show ?thesis
    by (simp add: readDirectoryRecursive_def lib_fs_def Let_def startsWith_def
          lib_root_paths lib_hidden_paths v)
qed

lemma lib_root_search:
  "searchVideosRecursive lib_config ''/srv'' lib_fs ''/lib'' ''mp4'' 100
   = [\<lparr>sr_name = ''a.mp4'', sr_path = ''movies/a.mp4'', sr_folder = ''movies'',
       sr_type = ''video'', sr_size = 500000, sr_modified = 0\<rparr>]"
proof -
  have v: "videoDirectory lib_config = ''/lib''" "maxRecursionDepth lib_config = 10"
    by (simp_all add: lib_config_def)
  show ?thesis
    by (simp add: searchVideosRecursive_def search_run_def searchDir.simps lib_fs_def
          startsWith_def isMediaFile_def lib_root_paths lib_movies_paths v file_stats_def)
qed

lemma join_plain_inj:
  assumes "\<forall>s\<in>set xs. plain s" and "\<forall>s\<in>set ys. plain s"
    and "join_with ''/'' xs = join_with ''/'' ys"
  shows "xs = ys"
proof -
  have "xs = absolute_segments (join_with ''/'' xs)"
    by (rule absolute_segments_join [OF assms(1), symmetric])
  also have "\<dots> = absolute_segments (join_with ''/'' ys)" by (simp only: assms(3))
  also have "\<dots> = ys" by (rule absolute_segments_join [OF assms(2)])
  finally show ?thesis .
qed

lemma visible_member: "visible names \<Longrightarrow> h \<in> set names \<Longrightarrow> \<not> startsWith h ''.''"
  by (simp add: visible_def list_all_iff)

text \<open>A search that starts at or below the root, in a file system whose entry names are
  single path segments: every path it reads is the start followed by names without a
  leading dot, every result path is the start's path inside the root followed by such
  names, and so no path with a hidden segment below the start is read or returned.\<close>

lemma search_skips_hidden:
  assumes wf: "\<forall>p (item :: dirent). entry_of fs p item \<longrightarrow> plain (d_name item)"
    and root: "posix_resolve cwd [videoDirectory cfg] = ''/'' @ join_with ''/'' bsegs"
      "\<forall>s\<in>set bsegs. plain s"
    and start: "startPath = ''/'' @ join_with ''/'' (bsegs @ rel)" "\<forall>s\<in>set rel. plain s"
  shows "(\<forall>c\<in>set (calls (search_run cfg cwd fs startPath query maxResults)).
            \<exists>names. visible names \<and> (\<forall>n\<in>set names. plain n)
              \<and> (c = ReaddirCall (''/'' @ join_with ''/'' (bsegs @ rel @ names)) (length names)
                   \<or> c = StatCall (''/'' @ join_with ''/'' (bsegs @ rel @ names))))"
    and "(\<forall>r\<in>set (searchVideosRecursive cfg cwd fs startPath query maxResults).
            \<exists>names. names \<noteq> [] \<and> last names = sr_name r \<and> visible names
              \<and> (\<forall>n\<in>set names. plain n)
              \<and> sr_path r = join_with ''/'' (rel @ names))"
    and "startsWith h ''.'' \<and> plain h \<and> (\<forall>s\<in>set pre. plain s) \<and> (\<forall>s\<in>set post. plain s) \<longrightarrow>
           (\<forall>c\<in>set (calls (search_run cfg cwd fs startPath query maxResults)).
              \<forall>d. c \<noteq> ReaddirCall (''/'' @ join_with ''/'' (bsegs @ rel @ pre @ [h] @ post)) d
                \<and> c \<noteq> StatCall (''/'' @ join_with ''/'' (bsegs @ rel @ pre @ [h] @ post)))
           \<and> (\<forall>r\<in>set (searchVideosRecursive cfg cwd fs startPath query maxResults).
                sr_path r \<noteq> join_with ''/'' (rel @ pre @ [h] @ post))"
proof -
  have ps: "\<forall>s\<in>set (bsegs @ rel). plain s" using root(2) start(2) by auto
  note ts = search_trace_segments
              [where cfg = cfg and cwd = cwd and query = query and maxResults = maxResults,
               OF wf start(1) ps]
  have a: "\<exists>names. visible names \<and> (\<forall>n\<in>set names. plain n)
              \<and> (c = ReaddirCall (''/'' @ join_with ''/'' (bsegs @ rel @ names)) (length names)
                   \<or> c = StatCall (''/'' @ join_with ''/'' (bsegs @ rel @ names)))"
    if cin: "c \<in> set (calls (search_run cfg cwd fs startPath query maxResults))" for c
  proof (cases c)
    case (ReaddirCall p d)
    then show ?thesis using ts [THEN conjunct1, rule_format, OF cin] by auto
  next
    case (StatCall p)
    then show ?thesis using ts [THEN conjunct1, rule_format, OF cin] by auto
  qed
  have b: "\<exists>names. names \<noteq> [] \<and> last names = sr_name r \<and> visible names
              \<and> (\<forall>n\<in>set names. plain n)
              \<and> sr_path r = join_with ''/'' (rel @ names)"
    if rin: "r \<in> set (searchVideosRecursive cfg cwd fs startPath query maxResults)" for r
  proof -
    have "r \<in> set (results (search_run cfg cwd fs startPath query maxResults))"
      using rin by (simp add: searchVideosRecursive_def)
    from ts [THEN conjunct2, rule_format, OF this] obtain names where
      n: "names \<noteq> []" "last names = sr_name r" "visible names" "\<forall>n\<in>set names. plain n"
        "sr_path r = posix_relative cwd (videoDirectory cfg)
                       (''/'' @ join_with ''/'' ((bsegs @ rel) @ names))"
      by blast
    have pr: "\<forall>s\<in>set (rel @ names). plain s" using start(2) n(4) by auto
    have "posix_relative cwd (videoDirectory cfg) (''/'' @ join_with ''/'' (bsegs @ (rel @ names)))
          = join_with ''/'' (rel @ names)"
      by (rule posix_relative_under [OF root pr])
    then have "sr_path r = join_with ''/'' (rel @ names)" using n(5) by simp
    then show ?thesis using n(1-4) by blast
  qed
  show "(\<forall>c\<in>set (calls (search_run cfg cwd fs startPath query maxResults)).
            \<exists>names. visible names \<and> (\<forall>n\<in>set names. plain n)
              \<and> (c = ReaddirCall (''/'' @ join_with ''/'' (bsegs @ rel @ names)) (length names)
                   \<or> c = StatCall (''/'' @ join_with ''/'' (bsegs @ rel @ names))))"
    using a by blast
  show "(\<forall>r\<in>set (searchVideosRecursive cfg cwd fs startPath query maxResults).
            \<exists>names. names \<noteq> [] \<and> last names = sr_name r \<and> visible names
              \<and> (\<forall>n\<in>set names. plain n)
              \<and> sr_path r = join_with ''/'' (rel @ names))"
    using b by blast
  show "startsWith h ''.'' \<and> plain h \<and> (\<forall>s\<in>set pre. plain s) \<and> (\<forall>s\<in>set post. plain s) \<longrightarrow>
           (\<forall>c\<in>set (calls (search_run cfg cwd fs startPath query maxResults)).
              \<forall>d. c \<noteq> ReaddirCall (''/'' @ join_with ''/'' (bsegs @ rel @ pre @ [h] @ post)) d
                \<and> c \<noteq> StatCall (''/'' @ join_with ''/'' (bsegs @ rel @ pre @ [h] @ post)))
           \<and> (\<forall>r\<in>set (searchVideosRecursive cfg cwd fs startPath query maxResults).
                sr_path r \<noteq> join_with ''/'' (rel @ pre @ [h] @ post))"
  proof (intro impI)
    assume H: "startsWith h ''.'' \<and> plain h \<and> (\<forall>s\<in>set pre. plain s) \<and> (\<forall>s\<in>set post. plain s)"
    have ph: "\<forall>s\<in>set (pre @ [h] @ post). plain s" using H by auto
    have no: "names \<noteq> pre @ [h] @ post" if "visible names" for names
      using visible_member [OF that, of h] H by auto
    have c1: "''/'' @ join_with ''/'' (bsegs @ rel @ names)
              \<noteq> ''/'' @ join_with ''/'' (bsegs @ rel @ pre @ [h] @ post)"
      if v: "visible names" and p: "\<forall>n\<in>set names. plain n" for names
    proof
      assume "''/'' @ join_with ''/'' (bsegs @ rel @ names)
              = ''/'' @ join_with ''/'' (bsegs @ rel @ pre @ [h] @ post)"
      then have e: "join_with ''/'' (bsegs @ rel @ names)
                    = join_with ''/'' (bsegs @ rel @ pre @ [h] @ post)" by simp
      have "bsegs @ rel @ names = bsegs @ rel @ pre @ [h] @ post"
        by (rule join_plain_inj [OF _ _ e]) (use root(2) start(2) p ph in auto)
      then show False using no [OF v] by simp
    qed
    have c2: "join_with ''/'' (rel @ names) \<noteq> join_with ''/'' (rel @ pre @ [h] @ post)"
      if v: "visible names" and p: "\<forall>n\<in>set names. plain n" for names
    proof
      assume e: "join_with ''/'' (rel @ names) = join_with ''/'' (rel @ pre @ [h] @ post)"
      have "rel @ names = rel @ pre @ [h] @ post"
        by (rule join_plain_inj [OF _ _ e]) (use start(2) p ph in auto)
      then show False using no [OF v] by simp
    qed
    have x: "c \<noteq> ReaddirCall (''/'' @ join_with ''/'' (bsegs @ rel @ pre @ [h] @ post)) d
             \<and> c \<noteq> StatCall (''/'' @ join_with ''/'' (bsegs @ rel @ pre @ [h] @ post))"
      if cin: "c \<in> set (calls (search_run cfg cwd fs startPath query maxResults))" for c d
    proof -
      from a [OF cin] obtain names where
        n: "visible names" "\<forall>n\<in>set names. plain n"
          "c = ReaddirCall (''/'' @ join_with ''/'' (bsegs @ rel @ names)) (length names)
           \<or> c = StatCall (''/'' @ join_with ''/'' (bsegs @ rel @ names))"
        by blast
      show ?thesis using n(3) c1 [OF n(1,2)] by auto
    qed
    have y: "sr_path r \<noteq> join_with ''/'' (rel @ pre @ [h] @ post)"
      if rin: "r \<in> set (searchVideosRecursive cfg cwd fs startPath query maxResults)" for r
    proof -
      from b [OF rin] obtain names where
        n: "visible names" "\<forall>n\<in>set names. plain n" "sr_path r = join_with ''/'' (rel @ names)"
        by blast
      show ?thesis using n(3) c2 [OF n(1,2)] by simp
    qed
    from x y
    show "(\<forall>c\<in>set (calls (search_run cfg cwd fs startPath query maxResults)).
              \<forall>d. c \<noteq> ReaddirCall (''/'' @ join_with ''/'' (bsegs @ rel @ pre @ [h] @ post)) d
                \<and> c \<noteq> StatCall (''/'' @ join_with ''/'' (bsegs @ rel @ pre @ [h] @ post)))
           \<and> (\<forall>r\<in>set (searchVideosRecursive cfg cwd fs startPath query maxResults).
                sr_path r \<noteq> join_with ''/'' (rel @ pre @ [h] @ post))"
      by blast
  qed
qed

text \<open>
  C8, as the code has it. A listing returns only entries of the listed directory whose
  names have no leading dot. Every result of a search is a file entry without a leading
  dot of a directory that is reached from the start directory through a chain of directory
  entries, each one a not hidden entry of the directory before it; and the search calls
  \<open>readdir\<close> only on the directories of such chains and \<open>stat\<close> only on such file
  entries. For a search that starts at or below the root, in a file system whose entry
  names are single path segments, this says: no path with a hidden segment below the start
  is read, and no result path has a hidden segment below the start, so what lies below a
  hidden entry is neither visited nor returned from above it. (The start directory itself
  is not tested: see the counterexample.) In the small library, \<open>list("movies")\<close> is the
  one file \<open>a.mp4\<close> of 500000 bytes, and listing and searching the root show nothing of
  \<open>.hidden\<close>.
\<close>

theorem hidden_entries_skipped:
  "(readDirectoryRecursive cfg cwd fs dirPath depth = Inr (Listing folders files) \<longrightarrow>
      (\<forall>e\<in>set folders. \<not> startsWith (fo_name e) ''.''
          \<and> (\<exists>item. entry_of fs dirPath item \<and> d_kind item = DirectoryEntry \<and> d_name item = fo_name e))
      \<and> (\<forall>e\<in>set files. \<not> startsWith (fi_name e) ''.''
          \<and> (\<exists>item. entry_of fs dirPath item \<and> d_kind item = FileEntry \<and> d_name item = fi_name e)))
   \<and> (\<forall>r\<in>set (searchVideosRecursive cfg cwd fs startPath query maxResults).
        \<not> startsWith (sr_name r) ''.''
        \<and> (\<exists>names item. subdir_chain fs startPath names
              \<and> entry_of fs (descend startPath names) item \<and> d_kind item = FileEntry
              \<and> d_name item = sr_name r
              \<and> sr_path r = posix_relative cwd (videoDirectory cfg)
                               (posix_join [descend startPath names, sr_name r])))
   \<and> (\<forall>c\<in>set (calls (search_run cfg cwd fs startPath query maxResults)).
        (\<exists>names. subdir_chain fs startPath names
            \<and> c = ReaddirCall (descend startPath names) (length names))
        \<or> (\<exists>names item. subdir_chain fs startPath names
              \<and> entry_of fs (descend startPath names) item \<and> d_kind item = FileEntry
              \<and> \<not> startsWith (d_name item) ''.''
              \<and> c = StatCall (posix_join [descend startPath names, d_name item])))
   \<and> ((\<forall>p (item :: dirent). entry_of fs p item \<longrightarrow> plain (d_name item))
        \<and> posix_resolve cwd [videoDirectory cfg] = ''/'' @ join_with ''/'' bsegs
        \<and> (\<forall>s\<in>set bsegs. plain s)
        \<and> startPath = ''/'' @ join_with ''/'' (bsegs @ rel) \<and> (\<forall>s\<in>set rel. plain s) \<longrightarrow>
      (\<forall>c\<in>set (calls (search_run cfg cwd fs startPath query maxResults)).
         \<exists>names. visible names \<and> (\<forall>n\<in>set names. plain n)
           \<and> (c = ReaddirCall (''/'' @ join_with ''/'' (bsegs @ rel @ names)) (length names)
                \<or> c = StatCall (''/'' @ join_with ''/'' (bsegs @ rel @ names))))
      \<and> (\<forall>r\<in>set (searchVideosRecursive cfg cwd fs startPath query maxResults).
           \<exists>names. names \<noteq> [] \<and> last names = sr_name r \<and> visible names
             \<and> (\<forall>n\<in>set names. plain n)
             \<and> sr_path r = join_with ''/'' (rel @ names))
      \<and> (startsWith h ''.'' \<and> plain h \<and> (\<forall>s\<in>set pre. plain s) \<and> (\<forall>s\<in>set post. plain s) \<longrightarrow>
           (\<forall>c\<in>set (calls (search_run cfg cwd fs startPath query maxResults)).
              \<forall>d. c \<noteq> ReaddirCall (''/'' @ join_with ''/'' (bsegs @ rel @ pre @ [h] @ post)) d
                \<and> c \<noteq> StatCall (''/'' @ join_with ''/'' (bsegs @ rel @ pre @ [h] @ post)))
           \<and> (\<forall>r\<in>set (searchVideosRecursive cfg cwd fs startPath query maxResults).
                sr_path r \<noteq> join_with ''/'' (rel @ pre @ [h] @ post))))
   \<and> sanitizePath lib_config ''/srv'' ''movies'' = Inr ''/lib/movies''
   \<and> readDirectoryRecursive lib_config ''/srv'' lib_fs ''/lib/movies'' 0
       = Inr (Listing [] [\<lparr>fi_name = ''a.mp4'', fi_path = ''movies/a.mp4'', fi_type = ''video'',
                           fi_size = 500000, fi_modified = 0\<rparr>])
   \<and> readDirectoryRecursive lib_config ''/srv'' lib_fs ''/lib'' 0
       = Inr (Listing [\<lparr>fo_name = ''movies'', fo_path = ''movies''\<rparr>] [])
   \<and> searchVideosRecursive lib_config ''/srv'' lib_fs ''/lib'' ''mp4'' 100
       = [\<lparr>sr_name = ''a.mp4'', sr_path = ''movies/a.mp4'', sr_folder = ''movies'',
           sr_type = ''video'', sr_size = 500000, sr_modified = 0\<rparr>]"
proof -
  note tr = search_trace [of cfg cwd fs startPath query maxResults]
  have a: "(\<forall>e\<in>set folders. \<not> startsWith (fo_name e) ''.''
              \<and> (\<exists>item. entry_of fs dirPath item \<and> d_kind item = DirectoryEntry \<and> d_name item = fo_name e))
           \<and> (\<forall>e\<in>set files. \<not> startsWith (fi_name e) ''.''
              \<and> (\<exists>item. entry_of fs dirPath item \<and> d_kind item = FileEntry \<and> d_name item = fi_name e))"
    if "readDirectoryRecursive cfg cwd fs dirPath depth = Inr (Listing folders files)"
    by (rule listing_entries_visible [OF that])
  have b: "\<not> startsWith (sr_name r) ''.''
           \<and> (\<exists>names item. subdir_chain fs startPath names
                 \<and> entry_of fs (descend startPath names) item \<and> d_kind item = FileEntry
                 \<and> d_name item = sr_name r
                 \<and> sr_path r = posix_relative cwd (videoDirectory cfg)
                                  (posix_join [descend startPath names, sr_name r]))"
    if "r \<in> set (searchVideosRecursive cfg cwd fs startPath query maxResults)" for r
  proof -
    have "r \<in> set (results (search_run cfg cwd fs startPath query maxResults))"
      using that by (simp add: searchVideosRecursive_def)
    from tr [THEN conjunct2, rule_format, OF this] obtain p names and item :: dirent where
      n: "subdir_chain fs startPath names" "entry_of fs (descend startPath names) item"
        "d_kind item = FileEntry" "\<not> startsWith (d_name item) ''.''" "sr_name r = d_name item"
        "p = posix_join [descend startPath names, d_name item]"
        "sr_path r = posix_relative cwd (videoDirectory cfg) p"
      by blast
    have "subdir_chain fs startPath names
          \<and> entry_of fs (descend startPath names) item \<and> d_kind item = FileEntry
          \<and> d_name item = sr_name r
          \<and> sr_path r = posix_relative cwd (videoDirectory cfg)
                           (posix_join [descend startPath names, sr_name r])"
      using n by simp
    then show ?thesis using n(4,5) by auto
  qed
  have c: "(\<exists>names. subdir_chain fs startPath names
              \<and> c = ReaddirCall (descend startPath names) (length names))
           \<or> (\<exists>names item. subdir_chain fs startPath names
                 \<and> entry_of fs (descend startPath names) item \<and> d_kind item = FileEntry
                 \<and> \<not> startsWith (d_name item) ''.''
                 \<and> c = StatCall (posix_join [descend startPath names, d_name item]))"
    if cin: "c \<in> set (calls (search_run cfg cwd fs startPath query maxResults))" for c
  proof (cases c)
    case (ReaddirCall p d)
    then show ?thesis using tr [THEN conjunct1, rule_format, OF cin] by auto
  next
    case (StatCall p)
    then obtain names and item :: dirent where
      n: "subdir_chain fs startPath names" "entry_of fs (descend startPath names) item"
        "d_kind item = FileEntry" "\<not> startsWith (d_name item) ''.''"
        "p = posix_join [descend startPath names, d_name item]"
      using tr [THEN conjunct1, rule_format, OF cin] by auto
    then have "\<exists>names item. subdir_chain fs startPath names
                 \<and> entry_of fs (descend startPath names) item \<and> d_kind item = FileEntry
                 \<and> \<not> startsWith (d_name item) ''.''
                 \<and> c = StatCall (posix_join [descend startPath names, d_name item])"
      using StatCall by blast
    then show ?thesis by blast
  qed
  have s: "sanitizePath lib_config ''/srv'' ''movies'' = Inr ''/lib/movies''" by code_simp
  show ?thesis
  proof (intro conjI)
    show "readDirectoryRecursive cfg cwd fs dirPath depth = Inr (Listing folders files) \<longrightarrow>
      (\<forall>e\<in>set folders. \<not> startsWith (fo_name e) ''.''
          \<and> (\<exists>item. entry_of fs dirPath item \<and> d_kind item = DirectoryEntry \<and> d_name item = fo_name e))
      \<and> (\<forall>e\<in>set files. \<not> startsWith (fi_name e) ''.''
          \<and> (\<exists>item. entry_of fs dirPath item \<and> d_kind item = FileEntry \<and> d_name item = fi_name e))"
      using a by blast
    show "\<forall>r\<in>set (searchVideosRecursive cfg cwd fs startPath query maxResults).
        \<not> startsWith (sr_name r) ''.''
        \<and> (\<exists>names item. subdir_chain fs startPath names
              \<and> entry_of fs (descend startPath names) item \<and> d_kind item = FileEntry
              \<and> d_name item = sr_name r
              \<and> sr_path r = posix_relative cwd (videoDirectory cfg)
                               (posix_join [descend startPath names, sr_name r]))"
      using b by blast
    show "\<forall>c\<in>set (calls (search_run cfg cwd fs startPath query maxResults)).
        (\<exists>names. subdir_chain fs startPath names
            \<and> c = ReaddirCall (descend startPath names) (length names))
        \<or> (\<exists>names item. subdir_chain fs startPath names
              \<and> entry_of fs (descend startPath names) item \<and> d_kind item = FileEntry
              \<and> \<not> startsWith (d_name item) ''.''
              \<and> c = StatCall (posix_join [descend startPath names, d_name item]))"
      using c by blast
    show "(\<forall>p (item :: dirent). entry_of fs p item \<longrightarrow> plain (d_name item))
        \<and> posix_resolve cwd [videoDirectory cfg] = ''/'' @ join_with ''/'' bsegs
        \<and> (\<forall>s\<in>set bsegs. plain s)
        \<and> startPath = ''/'' @ join_with ''/'' (bsegs @ rel) \<and> (\<forall>s\<in>set rel. plain s) \<longrightarrow>
      (\<forall>c\<in>set (calls (search_run cfg cwd fs startPath query maxResults)).
         \<exists>names. visible names \<and> (\<forall>n\<in>set names. plain n)
           \<and> (c = ReaddirCall (''/'' @ join_with ''/'' (bsegs @ rel @ names)) (length names)
                \<or> c = StatCall (''/'' @ join_with ''/'' (bsegs @ rel @ names))))
      \<and> (\<forall>r\<in>set (searchVideosRecursive cfg cwd fs startPath query maxResults).
           \<exists>names. names \<noteq> [] \<and> last names = sr_name r \<and> visible names
             \<and> (\<forall>n\<in>set names. plain n)
             \<and> sr_path r = join_with ''/'' (rel @ names))
      \<and> (startsWith h ''.'' \<and> plain h \<and> (\<forall>s\<in>set pre. plain s) \<and> (\<forall>s\<in>set post. plain s) \<longrightarrow>
           (\<forall>c\<in>set (calls (search_run cfg cwd fs startPath query maxResults)).
              \<forall>d. c \<noteq> ReaddirCall (''/'' @ join_with ''/'' (bsegs @ rel @ pre @ [h] @ post)) d
                \<and> c \<noteq> StatCall (''/'' @ join_with ''/'' (bsegs @ rel @ pre @ [h] @ post)))
           \<and> (\<forall>r\<in>set (searchVideosRecursive cfg cwd fs startPath query maxResults).
                sr_path r \<noteq> join_with ''/'' (rel @ pre @ [h] @ post)))"
    proof (intro impI, elim conjE, intro conjI)
      assume wf: "\<forall>p (item :: dirent). entry_of fs p item \<longrightarrow> plain (d_name item)"
        and root: "posix_resolve cwd [videoDirectory cfg] = ''/'' @ join_with ''/'' bsegs"
          "\<forall>s\<in>set bsegs. plain s"
        and start: "startPath = ''/'' @ join_with ''/'' (bsegs @ rel)" "\<forall>s\<in>set rel. plain s"
      note sk = search_skips_hidden
                  [where cfg = cfg and cwd = cwd and query = query and maxResults = maxResults,
                   OF wf root start]
      show "\<forall>c\<in>set (calls (search_run cfg cwd fs startPath query maxResults)).
         \<exists>names. visible names \<and> (\<forall>n\<in>set names. plain n)
           \<and> (c = ReaddirCall (''/'' @ join_with ''/'' (bsegs @ rel @ names)) (length names)
                \<or> c = StatCall (''/'' @ join_with ''/'' (bsegs @ rel @ names)))"
        by (rule sk(1))
      show "\<forall>r\<in>set (searchVideosRecursive cfg cwd fs startPath query maxResults).
           \<exists>names. names \<noteq> [] \<and> last names = sr_name r \<and> visible names
             \<and> (\<forall>n\<in>set names. plain n)
             \<and> sr_path r = join_with ''/'' (rel @ names)"
        by (rule sk(2))
      show "startsWith h ''.'' \<and> plain h \<and> (\<forall>s\<in>set pre. plain s) \<and> (\<forall>s\<in>set post. plain s) \<longrightarrow>
           (\<forall>c\<in>set (calls (search_run cfg cwd fs startPath query maxResults)).
              \<forall>d. c \<noteq> ReaddirCall (''/'' @ join_with ''/'' (bsegs @ rel @ pre @ [h] @ post)) d
                \<and> c \<noteq> StatCall (''/'' @ join_with ''/'' (bsegs @ rel @ pre @ [h] @ post)))
           \<and> (\<forall>r\<in>set (searchVideosRecursive cfg cwd fs startPath query maxResults).
                sr_path r \<noteq> join_with ''/'' (rel @ pre @ [h] @ post))"
        by (rule sk(3))
    qed
    show "sanitizePath lib_config ''/srv'' ''movies'' = Inr ''/lib/movies''" by (rule s)
    show "readDirectoryRecursive lib_config ''/srv'' lib_fs ''/lib/movies'' 0
       = Inr (Listing [] [\<lparr>fi_name = ''a.mp4'', fi_path = ''movies/a.mp4'', fi_type = ''video'',
                           fi_size = 500000, fi_modified = 0\<rparr>])"
      by (rule lib_movies_listing)
    show "readDirectoryRecursive lib_config ''/srv'' lib_fs ''/lib'' 0
       = Inr (Listing [\<lparr>fo_name = ''movies'', fo_path = ''movies''\<rparr>] [])"
      by (rule lib_root_listing)
    show "searchVideosRecursive lib_config ''/srv'' lib_fs ''/lib'' ''mp4'' 100
       = [\<lparr>sr_name = ''a.mp4'', sr_path = ''movies/a.mp4'', sr_folder = ''movies'',
           sr_type = ''video'', sr_size = 500000, sr_modified = 0\<rparr>]"
      by (rule lib_root_search)
  qed
qed

lemma lib_entries_plain: "\<forall>p (item :: dirent). entry_of lib_fs p item \<longrightarrow> plain (d_name item)"
  by (auto simp: entry_of_def lib_fs_def plain_def path_sep_def split: if_splits)

lemma lib_root_resolved: "posix_resolve ''/srv'' [''/lib''] = ''/lib''"
  by code_simp

lemma lib_root_calls:
  "calls (search_run lib_config ''/srv'' lib_fs ''/lib'' ''mp4'' 100)
   = [ReaddirCall ''/lib'' 0, ReaddirCall ''/lib/movies'' 1, StatCall ''/lib/movies/a.mp4'']"
proof -
  have v: "videoDirectory lib_config = ''/lib''" "maxRecursionDepth lib_config = 10"
    by (simp_all add: lib_config_def)
  show ?thesis
    by (simp add: search_run_def searchDir.simps lib_fs_def
          startsWith_def isMediaFile_def lib_root_paths lib_movies_paths v file_stats_def)
qed

theorem hidden_entries_skipped_witness:
  "readDirectoryRecursive lib_config ''/srv'' lib_fs ''/lib'' 0
     = Inr (Listing [\<lparr>fo_name = ''movies'', fo_path = ''movies''\<rparr>] [])
   \<and> \<not> startsWith ''movies'' ''.''
   \<and> (\<exists>item. entry_of lib_fs ''/lib'' item \<and> d_kind item = DirectoryEntry \<and> d_name item = ''movies'')
   \<and> searchVideosRecursive lib_config ''/srv'' lib_fs ''/lib'' ''mp4'' 100
       = [\<lparr>sr_name = ''a.mp4'', sr_path = ''movies/a.mp4'', sr_folder = ''movies'',
           sr_type = ''video'', sr_size = 500000, sr_modified = 0\<rparr>]
   \<and> (\<exists>names item. subdir_chain lib_fs ''/lib'' names
         \<and> entry_of lib_fs (descend ''/lib'' names) item \<and> d_kind item = FileEntry
         \<and> d_name item = ''a.mp4''
         \<and> ''movies/a.mp4'' = posix_relative ''/srv'' (videoDirectory lib_config)
                                 (posix_join [descend ''/lib'' names, ''a.mp4'']))
   \<and> calls (search_run lib_config ''/srv'' lib_fs ''/lib'' ''mp4'' 100)
       = [ReaddirCall ''/lib'' 0, ReaddirCall ''/lib/movies'' 1, StatCall ''/lib/movies/a.mp4'']
   \<and> (\<exists>names. subdir_chain lib_fs ''/lib'' names
         \<and> ReaddirCall ''/lib/movies'' 1 = ReaddirCall (descend ''/lib'' names) (length names))
   \<and> (\<exists>names. visible names
         \<and> ReaddirCall ''/lib/movies'' 1
             = ReaddirCall (''/'' @ join_with ''/'' ([''lib''] @ names)) (length names))
   \<and> (\<exists>names. visible names \<and> last names = ''a.mp4'' \<and> ''movies/a.mp4'' = join_with ''/'' names)
   \<and> startsWith ''.hidden'' ''.''
   \<and> ReaddirCall ''/lib/.hidden'' 1
       \<notin> set (calls (search_run lib_config ''/srv'' lib_fs ''/lib'' ''mp4'' 100))
   \<and> StatCall ''/lib/.hidden/b.mp4''
       \<notin> set (calls (search_run lib_config ''/srv'' lib_fs ''/lib'' ''mp4'' 100))
   \<and> ''.hidden/b.mp4''
       \<notin> sr_path ` set (searchVideosRecursive lib_config ''/srv'' lib_fs ''/lib'' ''mp4'' 100)"
proof -
  have v: "videoDirectory lib_config = ''/lib''" "maxRecursionDepth lib_config = 10"
    by (simp_all add: lib_config_def)
  let ?e = "\<lparr>fo_name = ''movies'', fo_path = ''movies''\<rparr>"
  let ?r = "\<lparr>sr_name = ''a.mp4'', sr_path = ''movies/a.mp4'', sr_folder = ''movies'',
             sr_type = ''video'', sr_size = 500000, sr_modified = 0\<rparr>"
  let ?calls = "calls (search_run lib_config ''/srv'' lib_fs ''/lib'' ''mp4'' 100)"
  let ?results = "searchVideosRecursive lib_config ''/srv'' lib_fs ''/lib'' ''mp4'' 100"
  have ein: "?e \<in> set [?e]" by simp
  have rin: "?r \<in> set ?results" by (simp add: lib_root_search)
  have cin: "ReaddirCall ''/lib/movies'' 1 \<in> set ?calls" using lib_root_calls by simp
  have hid: "startsWith ''.hidden'' ''.''" by (simp add: startsWith_def)
  have H: "(\<forall>p (item :: dirent). entry_of lib_fs p item \<longrightarrow> plain (d_name item))
        \<and> posix_resolve ''/srv'' [videoDirectory lib_config] = ''/'' @ join_with ''/'' [''lib'']
        \<and> (\<forall>s\<in>set [''lib'']. plain s)
        \<and> ''/lib'' = ''/'' @ join_with ''/'' ([''lib''] @ []) \<and> (\<forall>s\<in>set ([] :: string list). plain s)"
    using lib_entries_plain lib_root_resolved by (simp add: v plain_def path_sep_def)
  have Hh1: "startsWith ''.hidden'' ''.'' \<and> plain ''.hidden''
             \<and> (\<forall>s\<in>set ([] :: string list). plain s) \<and> (\<forall>s\<in>set ([] :: string list). plain s)"
    using hid by (simp add: plain_def path_sep_def)
  have Hh2: "startsWith ''.hidden'' ''.'' \<and> plain ''.hidden''
             \<and> (\<forall>s\<in>set ([] :: string list). plain s) \<and> (\<forall>s\<in>set [''b.mp4'']. plain s)"
    using hid by (simp add: plain_def path_sep_def)
  note t1 = hidden_entries_skipped
             [where cfg = lib_config and cwd = "''/srv''" and fs = lib_fs and dirPath = "''/lib''"
                and depth = 0 and folders = "[?e]" and files = "[]" and startPath = "''/lib''"
                and query = "''mp4''" and maxResults = 100 and bsegs = "[''lib'']" and rel = "[]"
                and h = "''.hidden''" and pre = "[]" and post = "[]"]
  note t2 = hidden_entries_skipped
             [where cfg = lib_config and cwd = "''/srv''" and fs = lib_fs and dirPath = "''/lib''"
                and depth = 0 and folders = "[?e]" and files = "[]" and startPath = "''/lib''"
                and query = "''mp4''" and maxResults = 100 and bsegs = "[''lib'']" and rel = "[]"
                and h = "''.hidden''" and pre = "[]" and post = "[''b.mp4'']"]
  note k1 = t1 [THEN conjunct2, THEN conjunct2, THEN conjunct2, THEN conjunct1, THEN mp, OF H]
  note k2 = t2 [THEN conjunct2, THEN conjunct2, THEN conjunct2, THEN conjunct1, THEN mp, OF H]
  have a: "\<not> startsWith (fo_name ?e) ''.''
           \<and> (\<exists>item. entry_of lib_fs ''/lib'' item \<and> d_kind item = DirectoryEntry
                 \<and> d_name item = fo_name ?e)"
    using t1 [THEN conjunct1, rule_format, OF lib_root_listing, THEN conjunct1, rule_format, OF ein] .
  have b: "\<exists>names item. subdir_chain lib_fs ''/lib'' names
             \<and> entry_of lib_fs (descend ''/lib'' names) item \<and> d_kind item = FileEntry
             \<and> d_name item = ''a.mp4''
             \<and> ''movies/a.mp4'' = posix_relative ''/srv'' (videoDirectory lib_config)
                                     (posix_join [descend ''/lib'' names, ''a.mp4''])"
    using t1 [THEN conjunct2, THEN conjunct1, rule_format, OF rin] by simp
  have c: "\<exists>names. subdir_chain lib_fs ''/lib'' names
             \<and> ReaddirCall ''/lib/movies'' 1 = ReaddirCall (descend ''/lib'' names) (length names)"
    using t1 [THEN conjunct2, THEN conjunct2, THEN conjunct1, rule_format, OF cin] by auto
  have d: "\<exists>names. visible names
             \<and> ReaddirCall ''/lib/movies'' 1
                 = ReaddirCall (''/'' @ join_with ''/'' ([''lib''] @ names)) (length names)"
    using k1 [THEN conjunct1, rule_format, OF cin] by auto
  have e: "\<exists>names. visible names \<and> last names = ''a.mp4'' \<and> ''movies/a.mp4'' = join_with ''/'' names"
    using k1 [THEN conjunct2, THEN conjunct1, rule_format, OF rin] by auto
  have f: "ReaddirCall ''/lib/.hidden'' 1 \<notin> set ?calls"
    using k1 [THEN conjunct2, THEN conjunct2, THEN mp, OF Hh1, THEN conjunct1] by auto
  have g: "StatCall ''/lib/.hidden/b.mp4'' \<notin> set ?calls"
    using k2 [THEN conjunct2, THEN conjunct2, THEN mp, OF Hh2, THEN conjunct1] by auto
  have h: "''.hidden/b.mp4'' \<notin> sr_path ` set ?results"
    using k2 [THEN conjunct2, THEN conjunct2, THEN mp, OF Hh2, THEN conjunct2] by auto
  from a b c d e f g h hid lib_root_calls lib_root_listing lib_root_search show ?thesis by simp
qed

section \<open>Range requests\<close>

lemma remove_first_bytes: "remove_first ''bytes='' (''bytes='' @ x) = x"
  by (simp add: startsWith_def)

lemma dash_not_digit: "CHR ''-'' \<notin> set (string_of_nat n)"
  using string_of_nat_digits [of "CHR ''-''" n] by (auto simp: isDigit_def)

lemma split_range_both:
  "split_on CHR ''-'' (string_of_nat s @ ''-'' @ string_of_nat e) = [string_of_nat s, string_of_nat e]"
  using split_on_append [of "CHR ''-''" "string_of_nat s" "string_of_nat e"]
  by (simp add: split_on_no_sep dash_not_digit)

lemma split_range_open:
  "split_on CHR ''-'' (string_of_nat s @ ''-'') = [string_of_nat s, []]"
  using split_on_append [of "CHR ''-''" "string_of_nat s" "[]"]
  by (simp add: split_on_no_sep dash_not_digit)

lemma show_number_nat: "show_number (Some (int n)) = string_of_nat n"
  by (simp add: show_number_def string_of_int_def)

lemma createReadStream_ok:
  assumes "s \<le> e" and "int e \<le> MAX_SAFE_INTEGER"
  shows "createReadStream content (Some (int s)) (Some (int e))
         = Inr (take (e - s + 1) (drop s content))"
proof -
  have "nat (int e - int s + 1) = e - s + 1" using assms(1) by simp
  then show ?thesis using assms by (simp add: createReadStream_def validateInteger_def)
qed

text \<open>The response to \<open>bytes=s-e\<close> with \<open>s \<le> e\<close>: nothing in it depends on how \<open>s\<close> and
  \<open>e\<close> compare with the size of the file.\<close>

lemma video_range_response:
  assumes "authenticated req" and "query_path req = Some p" and "p \<noteq> []"
    and "sanitizePath cfg cwd p = Inr fullPath"
    and "fs_stat fs fullPath = Some st" and "st_isFile st" and "isVideoFile cfg fullPath"
    and "s \<le> e" and "int e \<le> MAX_SAFE_INTEGER"
    and "range_header req = Some (''bytes='' @ string_of_nat s @ ''-'' @ string_of_nat e)"
  shows "video_handler cfg cwd fs req =
           \<lparr>status = 206,
            headers = [(''Content-Range'', ''bytes '' @ string_of_nat s @ ''-'' @ string_of_nat e
                                            @ ''/'' @ string_of_nat (st_size st)),
                       (''Accept-Ranges'', ''bytes''),
                       (''Content-Length'', string_of_nat (e - s + 1)),
                       (''Content-Type'', getMimeType fullPath)],
            body = BytesBody (take (e - s + 1) (drop s (fs_content fs fullPath)))\<rparr>"
proof -
  let ?r = "''bytes='' @ string_of_nat s @ ''-'' @ string_of_nat e"
  have parts: "split_on CHR ''-'' (remove_first ''bytes='' ?r) = [string_of_nat s, string_of_nat e]"
    by (simp only: remove_first_bytes split_range_both)
  have ne: "?r \<noteq> []" by simp
  have second: "1 < length [string_of_nat s, string_of_nat e]" by simp
  have nth1: "[string_of_nat s, string_of_nat e] ! 1 = string_of_nat e" by simp
  have "int e - int s + 1 = int (e - s + 1)" using assms(8) by simp
  then have len: "show_number (Some (int e - int s + 1)) = string_of_nat (e - s + 1)"
    by (simp only: show_number_nat)
  show ?thesis
    unfolding video_handler_def
    by (simp only: assms(1-7,10) ne parts second nth1 string_of_nat_not_Nil
          parseInt_string_of_nat
          createReadStream_ok [OF assms(8,9)] show_number_nat len
          Let_def if_True if_False simp_thms option.case sum.case prod.case list.sel)
qed

lemma video_open_range_response:
  assumes "authenticated req" and "query_path req = Some p" and "p \<noteq> []"
    and "sanitizePath cfg cwd p = Inr fullPath"
    and "fs_stat fs fullPath = Some st" and "st_isFile st" and "isVideoFile cfg fullPath"
    and "s < st_size st" and "int (st_size st) \<le> MAX_SAFE_INTEGER"
    and "range_header req = Some (''bytes='' @ string_of_nat s @ ''-'')"
  shows "video_handler cfg cwd fs req =
           \<lparr>status = 206,
            headers = [(''Content-Range'', ''bytes '' @ string_of_nat s @ ''-''
                                            @ string_of_nat (st_size st - 1)
                                            @ ''/'' @ string_of_nat (st_size st)),
                       (''Accept-Ranges'', ''bytes''),
                       (''Content-Length'', string_of_nat (st_size st - s)),
                       (''Content-Type'', getMimeType fullPath)],
            body = BytesBody (take (st_size st - s) (drop s (fs_content fs fullPath)))\<rparr>"
proof -
  let ?r = "''bytes='' @ string_of_nat s @ ''-''"
  let ?e = "st_size st - 1"
  have parts: "split_on CHR ''-'' (remove_first ''bytes='' ?r) = [string_of_nat s, []]"
    by (simp only: remove_first_bytes split_range_open)
  have ne: "?r \<noteq> []" by simp
  have second: "\<not> (1 < length [string_of_nat s, []] \<and> [string_of_nat s, []] ! 1 \<noteq> [])"
    by simp
  have e: "int (st_size st) - 1 = int ?e" using assms(8) by simp
  have se: "s \<le> ?e" "int ?e \<le> MAX_SAFE_INTEGER" using assms(8,9) by simp_all
  have tk: "?e - s + 1 = st_size st - s" using assms(8) by simp
  have crs: "createReadStream (fs_content fs fullPath) (Some (int s)) (Some (int (st_size st) - 1))
             = Inr (take (st_size st - s) (drop s (fs_content fs fullPath)))"
    using createReadStream_ok [OF se, of "fs_content fs fullPath"] by (simp only: e tk)
  have pe: "show_number (Some (int (st_size st) - 1)) = string_of_nat (st_size st - 1)"
    by (simp only: e show_number_nat)
  have "int (st_size st) - 1 - int s + 1 = int (st_size st - s)" using assms(8) by simp
  then have len: "show_number (Some (int (st_size st) - 1 - int s + 1)) = string_of_nat (st_size st - s)"
    by (simp only: show_number_nat)
  show ?thesis
    unfolding video_handler_def
    by (simp only: assms(1-7,10) ne parts second parseInt_string_of_nat
          crs show_number_nat pe len
          Let_def if_True if_False simp_thms option.case sum.case prod.case list.sel)
qed

text \<open>
  C5. A request on a regular video file of \<open>N\<close> bytes with the header
  \<open>bytes=<start>-<end>\<close>, \<open>start \<le> end < N\<close>, is answered 206 with
  \<open>Content-Range: bytes <start>-<end>/<N>\<close>, \<open>Accept-Ranges: bytes\<close>,
  \<open>Content-Length: end - start + 1\<close>, the content type of the file, and exactly the
  bytes from \<open>start\<close> to \<open>end\<close>. With the end left out, \<open>bytes=<start>-\<close>, the end
  is \<open>N - 1\<close>. (\<open>N\<close> is a size that JavaScript represents exactly.)
\<close>

theorem video_range_in_bounds:
  assumes "authenticated req" and "query_path req = Some p" and "p \<noteq> []"
    and "sanitizePath cfg cwd p = Inr fullPath"
    and "fs_stat fs fullPath = Some st" and "st_isFile st" and "isVideoFile cfg fullPath"
    and "st_size st = N" and "length (fs_content fs fullPath) = N"
    and "int N \<le> MAX_SAFE_INTEGER"
    and "start \<le> end" and "end < N"
  shows "(range_header req = Some (''bytes='' @ string_of_nat start @ ''-'' @ string_of_nat end) \<longrightarrow>
            video_handler cfg cwd fs req =
              \<lparr>status = 206,
               headers = [(''Content-Range'', ''bytes '' @ string_of_nat start @ ''-''
                                               @ string_of_nat end @ ''/'' @ string_of_nat N),
                          (''Accept-Ranges'', ''bytes''),
                          (''Content-Length'', string_of_nat (end - start + 1)),
                          (''Content-Type'', getMimeType fullPath)],
               body = BytesBody (take (end - start + 1) (drop start (fs_content fs fullPath)))\<rparr>
            \<and> length (take (end - start + 1) (drop start (fs_content fs fullPath))) = end - start + 1)
         \<and> (range_header req = Some (''bytes='' @ string_of_nat start @ ''-'') \<longrightarrow>
            video_handler cfg cwd fs req =
              \<lparr>status = 206,
               headers = [(''Content-Range'', ''bytes '' @ string_of_nat start @ ''-''
                                               @ string_of_nat (N - 1) @ ''/'' @ string_of_nat N),
                          (''Accept-Ranges'', ''bytes''),
                          (''Content-Length'', string_of_nat (N - start)),
                          (''Content-Type'', getMimeType fullPath)],
               body = BytesBody (drop start (fs_content fs fullPath))\<rparr>
            \<and> length (drop start (fs_content fs fullPath)) = N - start)"
proof -
  have e: "int end \<le> MAX_SAFE_INTEGER" using assms(10,12) by simp
  have a: "video_handler cfg cwd fs req =
              \<lparr>status = 206,
               headers = [(''Content-Range'', ''bytes '' @ string_of_nat start @ ''-''
                                               @ string_of_nat end @ ''/'' @ string_of_nat N),
                          (''Accept-Ranges'', ''bytes''),
                          (''Content-Length'', string_of_nat (end - start + 1)),
                          (''Content-Type'', getMimeType fullPath)],
               body = BytesBody (take (end - start + 1) (drop start (fs_content fs fullPath)))\<rparr>"
    if "range_header req = Some (''bytes='' @ string_of_nat start @ ''-'' @ string_of_nat end)"
    using video_range_response [OF assms(1-7) assms(11) e that] by (simp only: assms(8))
  have la: "length (take (end - start + 1) (drop start (fs_content fs fullPath))) = end - start + 1"
    using assms(9,11,12) by simp
  have s: "start < st_size st" "int (st_size st) \<le> MAX_SAFE_INTEGER"
    using assms(8,10,11,12) by simp_all
  have tk: "take (N - start) (drop start (fs_content fs fullPath)) = drop start (fs_content fs fullPath)"
    using assms(9) by simp
  have b: "video_handler cfg cwd fs req =
              \<lparr>status = 206,
               headers = [(''Content-Range'', ''bytes '' @ string_of_nat start @ ''-''
                                               @ string_of_nat (N - 1) @ ''/'' @ string_of_nat N),
                          (''Accept-Ranges'', ''bytes''),
                          (''Content-Length'', string_of_nat (N - start)),
                          (''Content-Type'', getMimeType fullPath)],
               body = BytesBody (drop start (fs_content fs fullPath))\<rparr>"
    if "range_header req = Some (''bytes='' @ string_of_nat start @ ''-'')"
    using video_open_range_response [OF assms(1-7) s that] by (simp only: assms(8) tk)
  have lb: "length (drop start (fs_content fs fullPath)) = N - start"
    using assms(9) by simp
  from a la b lb show ?thesis by blast
qed

lemma lib_video_facts:
  "sanitizePath lib_config ''/srv'' ''movies/a.mp4'' = Inr ''/lib/movies/a.mp4''"
  "isVideoFile lib_config ''/lib/movies/a.mp4''"
  "getMimeType ''/lib/movies/a.mp4'' = ''video/mp4''"
  by code_simp+

lemma lib_video_stat:
  "fs_stat lib_fs ''/lib/movies/a.mp4'' = Some (file_stats 500000)"
  "st_isFile (file_stats 500000)"
  "st_size (file_stats 500000) = 500000"
  "length (fs_content lib_fs ''/lib/movies/a.mp4'') = 500000"
  "int 500000 \<le> MAX_SAFE_INTEGER"
  by (simp_all add: lib_fs_def file_stats_def MAX_SAFE_INTEGER_def)

lemma decimal_strings:
  "string_of_nat 0 = ''0''" "string_of_nat 11 = ''11''" "string_of_nat 100 = ''100''"
  "string_of_nat 199 = ''199''" "string_of_nat 499999 = ''499999''"
  "string_of_nat 500000 = ''500000''" "string_of_nat 500010 = ''500010''"
  by (simp_all add: string_of_nat.simps digitChar_def)

theorem video_range_in_bounds_witness:
  "video_handler lib_config ''/srv'' lib_fs
     \<lparr>authenticated = True, query_path = Some ''movies/a.mp4'',
      range_header = Some ''bytes=100-199''\<rparr>
   = \<lparr>status = 206,
      headers = [(''Content-Range'', ''bytes 100-199/500000''), (''Accept-Ranges'', ''bytes''),
                 (''Content-Length'', ''100''), (''Content-Type'', ''video/mp4'')],
      body = BytesBody (take 100 (drop 100 (fs_content lib_fs ''/lib/movies/a.mp4'')))\<rparr>
   \<and> video_handler lib_config ''/srv'' lib_fs
     \<lparr>authenticated = True, query_path = Some ''movies/a.mp4'', range_header = Some ''bytes=0-''\<rparr>
   = \<lparr>status = 206,
      headers = [(''Content-Range'', ''bytes 0-499999/500000''), (''Accept-Ranges'', ''bytes''),
                 (''Content-Length'', ''500000''), (''Content-Type'', ''video/mp4'')],
      body = BytesBody (fs_content lib_fs ''/lib/movies/a.mp4'')\<rparr>
   \<and> length (fs_content lib_fs ''/lib/movies/a.mp4'') = 500000"
proof -
  let ?r1 = "\<lparr>authenticated = True, query_path = Some ''movies/a.mp4'',
              range_header = Some ''bytes=100-199''\<rparr>"
  let ?r2 = "\<lparr>authenticated = True, query_path = Some ''movies/a.mp4'',
              range_header = Some ''bytes=0-''\<rparr>"
  have p: "''movies/a.mp4'' \<noteq> []" by simp
  have h1: "range_header ?r1 = Some (''bytes='' @ string_of_nat 100 @ ''-'' @ string_of_nat 199)"
    by (simp add: decimal_strings)
  have h2: "range_header ?r2 = Some (''bytes='' @ string_of_nat 0 @ ''-'')"
    by (simp add: decimal_strings)
  have a1: "authenticated ?r1" "query_path ?r1 = Some ''movies/a.mp4''" by simp_all
  have a2: "authenticated ?r2" "query_path ?r2 = Some ''movies/a.mp4''" by simp_all
  have b1: "(100::nat) \<le> 199" "(199::nat) < 500000" by simp_all
  have b2: "(0::nat) \<le> 0" "(0::nat) < 500000" by simp_all
  note t1 = video_range_in_bounds
              [OF a1 p lib_video_facts(1) lib_video_stat(1,2) lib_video_facts(2)
                  lib_video_stat(3,4,5) b1, THEN conjunct1, rule_format, OF h1, THEN conjunct1]
  note t2 = video_range_in_bounds
              [OF a2 p lib_video_facts(1) lib_video_stat(1,2) lib_video_facts(2)
                  lib_video_stat(3,4,5) b2, THEN conjunct2, rule_format, OF h2, THEN conjunct1]
  show ?thesis
    using t1 t2 lib_video_stat(4)
    by (simp add: decimal_strings lib_video_facts(3))
qed

text \<open>
  C1, counterexample. On the file \<open>a.mp4\<close> of 500000 bytes, the header
  \<open>bytes=500000-500010\<close> (start at the end of the file) is answered 206, with
  \<open>Content-Range: bytes 500000-500010/500000\<close>, \<open>Content-Length: 11\<close> and an empty
  body.
\<close>

theorem range_beyond_eof_counterexample:
  "video_handler lib_config ''/srv'' lib_fs
     \<lparr>authenticated = True, query_path = Some ''movies/a.mp4'',
      range_header = Some ''bytes=500000-500010''\<rparr>
   = \<lparr>status = 206,
      headers = [(''Content-Range'', ''bytes 500000-500010/500000''), (''Accept-Ranges'', ''bytes''),
                 (''Content-Length'', ''11''), (''Content-Type'', ''video/mp4'')],
      body = BytesBody []\<rparr>"
proof -
  let ?r = "\<lparr>authenticated = True, query_path = Some ''movies/a.mp4'',
             range_header = Some ''bytes=500000-500010''\<rparr>"
  have p: "''movies/a.mp4'' \<noteq> []" by simp
  have a: "authenticated ?r" "query_path ?r = Some ''movies/a.mp4''" by simp_all
  have h: "range_header ?r = Some (''bytes='' @ string_of_nat 500000 @ ''-'' @ string_of_nat 500010)"
    by (simp add: decimal_strings)
  have b: "(500000::nat) \<le> 500010" "int 500010 \<le> MAX_SAFE_INTEGER"
    by (simp_all add: MAX_SAFE_INTEGER_def)
  show ?thesis
    using video_range_response
            [OF a p lib_video_facts(1) lib_video_stat(1,2) lib_video_facts(2) b h]
    by (simp add: decimal_strings lib_video_facts(3) lib_video_stat(3,4))
qed

lemma createReadStream_NaN: "createReadStream content None end = Inl StreamOutOfRange"
  by (simp add: createReadStream_def)

text \<open>
  C1, as the code has it. A request on a regular video file that carries a range header is
  never answered 416: the status is 206 or 500. The header \<open>bytes=<s>-<e>\<close> with
  \<open>s \<le> e \<le> 2^53 - 1\<close> is answered 206 with \<open>Content-Range: bytes <s>-<e>/<N>\<close> and
  \<open>Content-Length: e - s + 1\<close>, whatever the size \<open>N\<close> of the file; the body holds the
  bytes the file has in that span, none when \<open>s\<close> is at or beyond the end of the file.
  A header from which no start can be parsed makes the stream constructor throw and is
  answered 500.
\<close>

theorem video_range_unchecked:
  assumes "authenticated req" and "query_path req = Some p" and "p \<noteq> []"
    and "sanitizePath cfg cwd p = Inr fullPath"
    and "fs_stat fs fullPath = Some st" and "st_isFile st" and "isVideoFile cfg fullPath"
    and "range_header req = Some hdr" and "hdr \<noteq> []"
  shows "(status (video_handler cfg cwd fs req) = 206 \<or> status (video_handler cfg cwd fs req) = 500)
         \<and> (s \<le> e \<and> int e \<le> MAX_SAFE_INTEGER
              \<and> hdr = ''bytes='' @ string_of_nat s @ ''-'' @ string_of_nat e \<longrightarrow>
             video_handler cfg cwd fs req =
               \<lparr>status = 206,
                headers = [(''Content-Range'', ''bytes '' @ string_of_nat s @ ''-'' @ string_of_nat e
                                                @ ''/'' @ string_of_nat (st_size st)),
                           (''Accept-Ranges'', ''bytes''),
                           (''Content-Length'', string_of_nat (e - s + 1)),
                           (''Content-Type'', getMimeType fullPath)],
                body = BytesBody (take (e - s + 1) (drop s (fs_content fs fullPath)))\<rparr>
             \<and> (length (fs_content fs fullPath) \<le> s \<longrightarrow>
                  body (video_handler cfg cwd fs req) = BytesBody []))
         \<and> (parseInt (hd (split_on CHR ''-'' (remove_first ''bytes='' hdr))) = None \<longrightarrow>
             video_handler cfg cwd fs req
               = \<lparr>status = 500, headers = [], body = ErrorBody StreamOutOfRange\<rparr>)"
proof -
  have st: "status (video_handler cfg cwd fs req) = 206 \<or> status (video_handler cfg cwd fs req) = 500"
    unfolding video_handler_def
    using assms by (simp add: Let_def json_error_def split: sum.splits)
  have ok: "video_handler cfg cwd fs req =
               \<lparr>status = 206,
                headers = [(''Content-Range'', ''bytes '' @ string_of_nat s @ ''-'' @ string_of_nat e
                                                @ ''/'' @ string_of_nat (st_size st)),
                           (''Accept-Ranges'', ''bytes''),
                           (''Content-Length'', string_of_nat (e - s + 1)),
                           (''Content-Type'', getMimeType fullPath)],
                body = BytesBody (take (e - s + 1) (drop s (fs_content fs fullPath)))\<rparr>"
    if "s \<le> e" "int e \<le> MAX_SAFE_INTEGER"
      "hdr = ''bytes='' @ string_of_nat s @ ''-'' @ string_of_nat e"
    using video_range_response [OF assms(1-7) that(1,2)] assms(8) that(3) by simp
  have empty: "body (video_handler cfg cwd fs req) = BytesBody []"
    if "s \<le> e" "int e \<le> MAX_SAFE_INTEGER"
      "hdr = ''bytes='' @ string_of_nat s @ ''-'' @ string_of_nat e"
      "length (fs_content fs fullPath) \<le> s"
    using ok [OF that(1-3)] that(4) by simp
  have nan: "video_handler cfg cwd fs req
               = \<lparr>status = 500, headers = [], body = ErrorBody StreamOutOfRange\<rparr>"
    if "parseInt (hd (split_on CHR ''-'' (remove_first ''bytes='' hdr))) = None"
    unfolding video_handler_def
    using assms that by (simp add: Let_def json_error_def createReadStream_NaN)
  from st ok empty nan show ?thesis by blast
qed

theorem video_range_unchecked_witness:
  "video_handler lib_config ''/srv'' lib_fs
     \<lparr>authenticated = True, query_path = Some ''movies/a.mp4'',
      range_header = Some ''bytes=500010-500010''\<rparr>
   = \<lparr>status = 206,
      headers = [(''Content-Range'', ''bytes 500010-500010/500000''), (''Accept-Ranges'', ''bytes''),
                 (''Content-Length'', ''1''), (''Content-Type'', ''video/mp4'')],
      body = BytesBody []\<rparr>
   \<and> video_handler lib_config ''/srv'' lib_fs
     \<lparr>authenticated = True, query_path = Some ''movies/a.mp4'', range_header = Some ''bytes=abc''\<rparr>
   = \<lparr>status = 500, headers = [], body = ErrorBody StreamOutOfRange\<rparr>"
proof -
  let ?r1 = "\<lparr>authenticated = True, query_path = Some ''movies/a.mp4'',
              range_header = Some ''bytes=500010-500010''\<rparr>"
  let ?r2 = "\<lparr>authenticated = True, query_path = Some ''movies/a.mp4'',
              range_header = Some ''bytes=abc''\<rparr>"
  have p: "''movies/a.mp4'' \<noteq> []" by simp
  have a1: "authenticated ?r1" "query_path ?r1 = Some ''movies/a.mp4''"
    "range_header ?r1 = Some ''bytes=500010-500010''" "''bytes=500010-500010'' \<noteq> []"
    by simp_all
  have a2: "authenticated ?r2" "query_path ?r2 = Some ''movies/a.mp4''"
    "range_header ?r2 = Some ''bytes=abc''" "''bytes=abc'' \<noteq> []"
    by simp_all
  have h1: "(500010::nat) \<le> 500010 \<and> int 500010 \<le> MAX_SAFE_INTEGER
            \<and> ''bytes=500010-500010'' = ''bytes='' @ string_of_nat 500010 @ ''-'' @ string_of_nat 500010"
    by (simp add: decimal_strings MAX_SAFE_INTEGER_def)
  have h2: "parseInt (hd (split_on CHR ''-'' (remove_first ''bytes='' ''bytes=abc''))) = None"
    by (simp add: startsWith_def parseInt_def isWhiteSpace_def isDigit_def)
  note t1 = video_range_unchecked
              [OF a1(1,2) p lib_video_facts(1) lib_video_stat(1,2) lib_video_facts(2) a1(3,4),
               of 500010 500010, THEN conjunct2, THEN conjunct1, rule_format, OF h1]
  note t2 = video_range_unchecked
              [OF a2(1,2) p lib_video_facts(1) lib_video_stat(1,2) lib_video_facts(2) a2(3,4),
               THEN conjunct2, THEN conjunct2, rule_format, OF h2]
  have one: "string_of_nat (Suc 0) = ''1''" by (simp add: string_of_nat.simps digitChar_def)
  show ?thesis
    using t1 [THEN conjunct1] t2
    by (simp add: one decimal_strings lib_video_facts(3) lib_video_stat(3,4))
qed

section \<open>The earlier variant of sanitizePath\<close>

text \<open>After normalisation of a relative path, the \<open>..\<close> segments come first.\<close>

lemma normalizeSegment_True_shape:
  assumes "\<forall>s\<in>set M. plain s" and "path_sep \<notin> set x"
  shows "\<exists>k' M'. normalizeSegment True (replicate k ''..'' @ M) x = replicate k' ''..'' @ M'
                 \<and> (\<forall>s\<in>set M'. plain s)"
proof (cases "x = [] \<or> x = ''.''")
  case True
  then show ?thesis using assms(1) by (auto simp: normalizeSegment_def)
next
  case nt: False
  show ?thesis
  proof (cases "x = ''..''")
    case True
    show ?thesis
    proof (cases "M = []")
      case True
      have "normalizeSegment True (replicate k ''..'') ''..'' = replicate (Suc k) ''..'' @ []"
        by (cases k) (simp_all add: normalizeSegment_def replicate_append_same)
      moreover have "\<forall>s\<in>set ([] :: string list). plain s" by simp
      ultimately show ?thesis using True \<open>x = ''..''\<close> by (metis append_Nil2)
    next
      case False
      then have l: "last (replicate k ''..'' @ M) = last M" by simp
      have "last M \<in> set M" using False by simp
      then have "last M \<noteq> ''..''" using assms(1) by (auto simp: plain_def)
      then have "normalizeSegment True (replicate k ''..'' @ M) ''..'' = replicate k ''..'' @ butlast M"
        using False l by (simp add: normalizeSegment_def butlast_append)
      moreover have "\<forall>s\<in>set (butlast M). plain s"
        using assms(1) by (auto dest: in_set_butlastD)
      ultimately show ?thesis using \<open>x = ''..''\<close> by blast
    qed
  next
    case False
    then have "plain x" using nt assms(2) by (simp add: plain_def)
    then have "normalizeSegment True (replicate k ''..'' @ M) x = replicate k ''..'' @ (M @ [x])"
      by (simp add: normalizeSegment_keep plain_def)
    moreover have "\<forall>s\<in>set (M @ [x]). plain s" using assms(1) \<open>plain x\<close> by simp
    ultimately show ?thesis by blast
  qed
qed

lemma foldl_normalize_True_shape:
  "\<forall>s\<in>set M. plain s \<Longrightarrow> \<forall>x\<in>set xs. path_sep \<notin> set x \<Longrightarrow>
   \<exists>k' M'. foldl (normalizeSegment True) (replicate k ''..'' @ M) xs = replicate k' ''..'' @ M'
           \<and> (\<forall>s\<in>set M'. plain s)"
proof (induction xs arbitrary: k M)
  case Nil
  then show ?case by auto
next
  case (Cons x xs)
  obtain k' M' where s: "normalizeSegment True (replicate k ''..'' @ M) x = replicate k' ''..'' @ M'"
    and p: "\<forall>s\<in>set M'. plain s"
    using normalizeSegment_True_shape [of M x k] Cons.prems by auto
  show ?case using Cons.IH [OF p, of k'] Cons.prems(2) s by simp
qed

lemma normalizeSegments_True_shape:
  "\<exists>k M. normalizeSegments True (split_on path_sep u) = replicate k ''..'' @ M
         \<and> (\<forall>s\<in>set M. plain s)"
  unfolding normalizeSegments_def
  using foldl_normalize_True_shape [of "[]" "split_on path_sep u" 0]
  by (auto dest: split_on_parts_no_sep)

text \<open>\<open>parents_first t\<close>: the segments of \<open>t\<close> are some \<open>..\<close> segments followed by
  segments none of which is \<open>..\<close>.\<close>

lemma split_on_trailing: "split_on d (x @ [d]) = split_on d x @ [[]]"
  using split_on_append [of d x "[]"] by simp

lemma split_on_leading: "split_on d (d # x) = [] # split_on d x"
  by simp

lemma hd_split_on: "hd (split_on d t) = takeWhile (\<lambda>c. c \<noteq> d) t"
  by (induction t) auto

lemma posix_normalize_shape:
  "\<exists>k M. split_on path_sep (posix_normalize u) = replicate k ''..'' @ M \<and> ''..'' \<notin> set M"
proof (cases "u = []")
  case True
  have "split_on path_sep (posix_normalize u) = replicate 0 ''..'' @ [''.''] \<and> ''..'' \<notin> set [''.'']"
    using True by (simp add: posix_normalize_def path_sep_def)
  then show ?thesis by blast
next
  case False
  let ?abs = "hd u = path_sep"
  obtain k M where sh: "normalizeSegments (\<not> ?abs) (split_on path_sep u) = replicate k ''..'' @ M"
    and pl: "\<forall>s\<in>set M. plain s"
  proof (cases ?abs)
    case True
    show ?thesis
    proof (rule that [of 0 "normalizeSegments False (split_on path_sep u)"])
      show "normalizeSegments (\<not> ?abs) (split_on path_sep u)
            = replicate 0 ''..'' @ normalizeSegments False (split_on path_sep u)"
        using True by simp
      show "\<forall>s\<in>set (normalizeSegments False (split_on path_sep u)). plain s"
        by (rule normalizeSegments_False_plain)
    qed
  next
    case False
    obtain k M where "normalizeSegments True (split_on path_sep u) = replicate k ''..'' @ M"
      and "\<forall>s\<in>set M. plain s"
      using normalizeSegments_True_shape [of u] by blast
    then show ?thesis using that [of k M] False by simp
  qed
  let ?segs = "replicate k ''..'' @ M"
  have m: "\<forall>s\<in>set M. path_sep \<notin> set s \<and> s \<noteq> [] \<and> s \<noteq> ''..''"
    using pl by (simp add: plain_def)
  have dd: "path_sep \<notin> set ''..'' \<and> ''..'' \<noteq> []" by (simp add: path_sep_def)
  have mem: "s = ''..'' \<or> s \<in> set M" if "s \<in> set ?segs" for s
    using that by (cases "k = 0") auto
  have nosep: "\<forall>s\<in>set ?segs. path_sep \<notin> set s"
    using mem m dd by blast
  have nonempty: "\<forall>s\<in>set ?segs. s \<noteq> []"
    using mem m dd by blast
  have nd: "''..'' \<notin> set M" using m by blast
  have p: "normalizeString u (\<not> ?abs) = join_with ''/'' ?segs"
    by (simp add: normalizeString_def sh)
  show ?thesis
  proof (cases "?segs = []")
    case True
    then have pe: "normalizeString u (\<not> ?abs) = []" using p by simp
    have n0: "posix_normalize u
              = (if ?abs then ''/'' else if last u = path_sep then ''./'' else ''.'')"
      using False pe by (simp add: posix_normalize_def Let_def)
    have e1: "split_on path_sep ''/'' = replicate 0 ''..'' @ [[], []] \<and> ''..'' \<notin> set [[], []]"
      and e2: "split_on path_sep ''./'' = replicate 0 ''..'' @ [''.'', []] \<and> ''..'' \<notin> set [''.'', []]"
      and e3: "split_on path_sep ''.'' = replicate 0 ''..'' @ [''.''] \<and> ''..'' \<notin> set [''.'']"
      by (simp_all add: path_sep_def)
    show ?thesis
    proof (cases ?abs)
      case True
      then have "posix_normalize u = ''/''" using n0 by simp
      then show ?thesis using e1 by metis
    next
      case na: False
      show ?thesis
      proof (cases "last u = path_sep")
        case True
        then have "posix_normalize u = ''./''" using n0 na by simp
        then show ?thesis using e2 by metis
      next
        case False
        then have "posix_normalize u = ''.''" using n0 na by simp
        then show ?thesis using e3 by metis
      qed
    qed
  next
    case ne: False
    have sp: "split_on path_sep (join_with ''/'' ?segs) = ?segs"
      using split_on_join [OF ne nosep] by (simp add: path_sep_def)
    have pne: "join_with ''/'' ?segs \<noteq> []"
      using join_with_Nil_iff [OF nonempty, of "''/''"] ne by simp
    let ?j = "join_with ''/'' ?segs"
    have n: "posix_normalize u
             = (if ?abs then ''/'' else []) @ ?j @ (if last u = path_sep then ''/'' else [])"
      using False p pne by (simp add: posix_normalize_def Let_def)
    have s1: "split_on path_sep ?j = replicate k ''..'' @ M" by (rule sp)
    have s2: "split_on path_sep (?j @ ''/'') = replicate k ''..'' @ (M @ [[]])"
      using split_on_trailing [of path_sep ?j] sp by (simp add: path_sep_def)
    have nd2: "''..'' \<notin> set (M @ [[]])" using nd by simp
    show ?thesis
    proof (cases ?abs)
      case True
      then have "\<forall>s\<in>set ?segs. plain s"
        using normalizeSegments_False_plain [of u] sh by simp
      then have k: "k = 0" by (cases k) (auto simp: plain_def)
      show ?thesis
      proof (cases "last u = path_sep")
        case tr: True
        have "split_on path_sep (posix_normalize u) = replicate 0 ''..'' @ ([] # M @ [[]])"
          using n True tr s2 k by (simp add: path_sep_def)
        moreover have "''..'' \<notin> set ([] # M @ [[]])" using nd by simp
        ultimately show ?thesis by blast
      next
        case tr: False
        have "split_on path_sep (posix_normalize u) = replicate 0 ''..'' @ ([] # M)"
          using n True tr s1 k by (simp add: path_sep_def)
        moreover have "''..'' \<notin> set ([] # M)" using nd by simp
        ultimately show ?thesis by blast
      qed
    next
      case False
      show ?thesis
      proof (cases "last u = path_sep")
        case tr: True
        have "split_on path_sep (posix_normalize u) = replicate k ''..'' @ (M @ [[]])"
          using n False tr s2 by simp
        then show ?thesis using nd2 by blast
      next
        case tr: False
        have "split_on path_sep (posix_normalize u) = replicate k ''..'' @ M"
          using n False tr s1 by simp
        then show ?thesis using nd by blast
      qed
    qed
  qed
qed

text \<open>Stripping the leading parent segments of such a path leaves no \<open>..\<close> segment.\<close>

lemma strip_parent_prefix_no_parent:
  "\<exists>k M. split_on path_sep t = replicate k ''..'' @ M \<and> ''..'' \<notin> set M \<Longrightarrow>
   ''..'' \<notin> set (split_on path_sep (strip_parent_prefix t))"
proof (induction t rule: strip_parent_prefix.induct)
  case (1 a b c rest)
  then obtain k M where sh: "split_on path_sep (a # b # c # rest) = replicate k ''..'' @ M"
    and nd: "''..'' \<notin> set M"
    by blast
  show ?case
  proof (cases "a = CHR ''.'' \<and> b = CHR ''.'' \<and> (c = CHR ''/'' \<or> c = CHR 0x5C)")
    case True
    have "\<exists>k' M'. split_on path_sep rest = replicate k' ''..'' @ M' \<and> ''..'' \<notin> set M'"
    proof (cases "c = CHR ''/''")
      case slash: True
      have sp: "split_on path_sep (a # b # c # rest) = ''..'' # split_on path_sep rest"
        using True slash by (simp add: path_sep_def)
      have e: "replicate k ''..'' @ M = ''..'' # split_on path_sep rest"
        using sh sp by (simp only:)
      have "k \<noteq> 0"
      proof
        assume "k = 0"
        with e have "M = ''..'' # split_on path_sep rest" by simp
        with nd show False by simp
      qed
      then obtain k' where "k = Suc k'" by (cases k) auto
      then have "split_on path_sep rest = replicate k' ''..'' @ M" using e by simp
      then show ?thesis using nd by blast
    next
      case False
      then have bs: "c = CHR 0x5C" using True by simp
      obtain h tl' where ht: "split_on path_sep rest = h # tl'"
        using split_on_not_Nil [of path_sep rest] by (cases "split_on path_sep rest") auto
      have sp: "split_on path_sep (a # b # c # rest) = (a # b # c # h) # tl'"
        using True bs ht by (simp add: path_sep_def)
      have e: "replicate k ''..'' @ M = (a # b # c # h) # tl'"
        using sh sp by (simp only:)
      have "k = 0" using e bs by (cases k) auto
      then have "''..'' \<notin> set tl'" using e nd by auto
      show ?thesis
      proof (cases "h = ''..''")
        case True
        then have "split_on path_sep rest = replicate 1 ''..'' @ tl'" using ht by simp
        then show ?thesis using \<open>''..'' \<notin> set tl'\<close> by blast
      next
        case False
        then have "split_on path_sep rest = replicate 0 ''..'' @ (h # tl') \<and> ''..'' \<notin> set (h # tl')"
          using ht \<open>''..'' \<notin> set tl'\<close> by auto
        then show ?thesis by blast
      qed
    qed
    then show ?thesis using "1.IH" True by simp
  next
    case False
    have "k = 0"
    proof (rule ccontr)
      assume "k \<noteq> 0"
      then have "hd (replicate k ''..'' @ M) = ''..''" by (cases k) auto
      then have "hd (split_on path_sep (a # b # c # rest)) = ''..''"
        by (simp only: sh)
      then have "takeWhile (\<lambda>x. x \<noteq> path_sep) (a # b # c # rest) = ''..''"
        by (simp only: hd_split_on)
      then have "a = CHR ''.'' \<and> b = CHR ''.'' \<and> c = CHR ''/''"
        by (auto simp: path_sep_def split: if_splits)
      with False show False by simp
    qed
    then have "split_on path_sep (a # b # c # rest) = M" using sh by (simp only:) simp
    moreover have "strip_parent_prefix (a # b # c # rest) = a # b # c # rest"
      using False by auto
    ultimately show ?thesis using nd by (simp only: simp_thms)
  qed
qed (auto simp: path_sep_def split: if_splits)

lemma foldl_normalize_no_parent:
  "''..'' \<notin> set xs \<Longrightarrow>
   foldl (normalizeSegment a) res xs = res @ filter (\<lambda>s. s \<noteq> [] \<and> s \<noteq> ''.'') xs"
  by (induction xs arbitrary: res) (auto simp: normalizeSegment_def)

lemma posix_normalize_abs_norm:
  assumes "segs \<noteq> []" and "\<forall>s\<in>set segs. plain s"
  shows "posix_normalize (''/'' @ join_with ''/'' segs) = ''/'' @ join_with ''/'' segs"
proof -
  let ?p = "''/'' @ join_with ''/'' segs"
  have j: "join_with ''/'' segs \<noteq> []" "last (join_with ''/'' segs) \<noteq> path_sep"
    using hd_join_plain [OF assms] by simp_all
  have seg: "absolute_segments ?p = segs"
    using assms(2) by (simp only: absolute_segments_slash absolute_segments_join)
  have "normalizeString ?p False = join_with ''/'' segs"
    using normalizeString_plain [of ?p False] seg assms(2) by simp
  then show ?thesis using j by (simp add: posix_normalize_def Let_def path_sep_def)
qed

text \<open>
  The earlier variant, for a configured directory that is a normalised absolute path other
  than \<open>/\<close>: it never rejects a path, and what it returns is the root, or begins with the
  root followed by the separator, and has no \<open>..\<close> segment. Its plain prefix test is
  never what keeps a path inside the root: the stripping and the join do.
\<close>

lemma sanitizePath_variant_within_root:
  assumes vd: "videoDirectory cfg = ''/'' @ join_with ''/'' bsegs"
    and bne: "bsegs \<noteq> []" and bp: "\<forall>s\<in>set bsegs. plain s"
  shows "\<exists>r. sanitizePath_variant cfg userPath = Inr r
           \<and> (r = videoDirectory cfg \<or> startsWith r (videoDirectory cfg @ [path_sep]))
           \<and> ''..'' \<notin> set (split_on path_sep r)"
proof -
  let ?vd = "''/'' @ join_with ''/'' bsegs"
  let ?t = "strip_parent_prefix (posix_normalize userPath)"
  have good: "''..'' \<notin> set (split_on path_sep ?t)"
    by (rule strip_parent_prefix_no_parent [OF posix_normalize_shape])
  have vdn: "posix_normalize ?vd = ?vd" by (rule posix_normalize_abs_norm [OF bne bp])
  have vd_ok: "''..'' \<notin> set (split_on path_sep ?vd)" by (rule abs_norm_no_parent_segment [OF bp])
  have bsep: "\<forall>s\<in>set bsegs. path_sep \<notin> set s"
    and bkeep: "filter (\<lambda>s. s \<noteq> [] \<and> s \<noteq> ''.'') bsegs = bsegs"
    using bp by (simp_all add: plain_def filter_id_conv)
  have bnd: "''..'' \<notin> set bsegs"
  proof
    assume "''..'' \<in> set bsegs"
    then have "plain ''..''" using bp by blast
    then show False by (simp add: plain_def)
  qed
  have spb: "split_on path_sep (join_with ''/'' bsegs) = bsegs"
    using split_on_join [OF bne bsep] by (simp add: path_sep_def)
  show ?thesis
  proof (cases "?t = []")
    case True
    have "posix_join [?vd, ?t] = ?vd" using True vdn by (simp add: posix_join_def)
    then have "sanitizePath_variant cfg userPath = Inr ?vd"
      by (simp add: sanitizePath_variant_def vd Let_def startsWith_def)
    then show ?thesis using vd vd_ok by simp
  next
    case False
    let ?joined = "?vd @ ''/'' @ ?t"
    let ?T = "split_on path_sep ?t"
    let ?F = "filter (\<lambda>s. s \<noteq> [] \<and> s \<noteq> ''.'') ?T"
    let ?tail = "if last ?t = path_sep then ''/'' else []"
    have j: "posix_join [?vd, ?t] = posix_normalize ?joined"
      using False by (simp add: posix_join_def)
    have spj: "split_on path_sep ?joined = ([] # bsegs) @ ?T"
      using split_on_append [of path_sep ?vd ?t] spb by (simp add: path_sep_def)
    have "''..'' \<notin> set (([] # bsegs) @ ?T)" using good bnd by simp
    then have "normalizeSegments False (split_on path_sep ?joined)
               = filter (\<lambda>s. s \<noteq> [] \<and> s \<noteq> ''.'') (([] # bsegs) @ ?T)"
      unfolding normalizeSegments_def spj
      using foldl_normalize_no_parent [of "([] # bsegs) @ ?T" False "[]"] by simp
    then have ns: "normalizeString ?joined False = join_with ''/'' (bsegs @ ?F)"
      using bkeep by (simp add: normalizeString_def)
    have fsep: "\<forall>s\<in>set (bsegs @ ?F). path_sep \<notin> set s"
      using bsep by (auto dest: split_on_parts_no_sep)
    have fne: "\<forall>s\<in>set (bsegs @ ?F). s \<noteq> []" using bp by (auto simp: plain_def)
    have fnd: "''..'' \<notin> set (bsegs @ ?F)" using good bnd by simp
    have ne: "bsegs @ ?F \<noteq> []" using bne by simp
    have pne: "join_with ''/'' (bsegs @ ?F) \<noteq> []"
      using join_with_Nil_iff [OF fne, of "''/''"] ne by simp
    have last_j: "last ?joined = last ?t" using False by simp
    have r: "posix_normalize ?joined = ''/'' @ join_with ''/'' (bsegs @ ?F) @ ?tail"
      using ns pne last_j by (simp add: posix_normalize_def Let_def path_sep_def)
    have jf: "join_with ''/'' (bsegs @ ?F)
              = join_with ''/'' bsegs @ (if ?F = [] then [] else ''/'' @ join_with ''/'' ?F)"
      using join_with_append [OF bne, of ?F "''/''"] by simp
    let ?x = "(if ?F = [] then [] else ''/'' @ join_with ''/'' ?F) @ ?tail"
    have rx: "posix_normalize ?joined = ?vd @ ?x" using r jf by simp
    have xs: "?x = [] \<or> hd ?x = path_sep \<and> ?x \<noteq> []" by (simp add: path_sep_def)
    have within: "?vd @ ?x = ?vd \<or> startsWith (?vd @ ?x) (?vd @ [path_sep])"
    proof (cases "?x = []")
      case True
      then show ?thesis by simp
    next
      case nx: False
      then obtain y ys where y: "?x = y # ys" by (cases ?x) auto
      then have "y = path_sep" using xs nx by (metis list.sel(1))
      then have "startsWith (?vd @ ?x) (?vd @ [path_sep])"
        using y by (simp only: startsWith_def) simp
      then show ?thesis by simp
    qed
    have pre: "startsWith (?vd @ ?x) ?vd" by (simp add: startsWith_def)
    have spjoin: "split_on path_sep (join_with ''/'' (bsegs @ ?F)) = bsegs @ ?F"
      using split_on_join [OF ne fsep] by (simp add: path_sep_def)
    have "split_on path_sep (posix_normalize ?joined)
          = [] # (bsegs @ ?F) @ (if last ?t = path_sep then [[]] else [])"
      using r spjoin split_on_trailing [of path_sep "join_with ''/'' (bsegs @ ?F)"]
      by (simp add: path_sep_def)
    then have nop: "''..'' \<notin> set (split_on path_sep (posix_normalize ?joined))"
      using fnd by simp
    have "sanitizePath_variant cfg userPath = Inr (posix_normalize ?joined)"
      using pre rx j by (simp add: sanitizePath_variant_def vd Let_def)
    then show ?thesis using within nop rx vd by simp
  qed
qed

end
